theory Spec2Isabelle
  imports Complex_Main "HOL-Library.Multiset" "HOL-Library.Char_ord" "HOL-Library.List_Lexorder"
begin

section \<open>Sisepai: cards, decks, sets, the hand evaluator and the turn orchestrator\<close>

text \<open>
  A shallow embedding of \<^verbatim>\<open>sisepai.py\<close> and \<^verbatim>\<open>game.py\<close>.
  Python objects are compared by identity (\<^verbatim>\<open>Card\<close> defines no \<^verbatim>\<open>__eq__\<close>), so a
  card carries the identity of its object in the field \<open>ident\<close>: \<^verbatim>\<open>i == j\<close>,
  \<^verbatim>\<open>c in xs\<close> and \<^verbatim>\<open>xs.remove(c)\<close> of the source compare \<open>ident\<close>.
  Strings are compared as Python compares them (lexicographically by character code).
\<close>

subsection \<open>Errors\<close>

text \<open>
  The exceptions of Python that the source can raise, and NonTermination, the value of a
  call that never returns.
\<close>

datatype py_error = IndexError | ValueError | AttributeError | TypeError | ZeroDivisionError
  | NonTermination

subsection \<open>Card\<close>

record card =
  ident :: nat
  colour :: string
  suit :: string
  rank :: int
  active :: bool
  locked :: bool

definition validSuits :: "string list" where
  "validSuits = [''kuin'', ''tse'', ''xiong'', ''kee'', ''mah'', ''pau'', ''chut'']"

definition validColours :: "string list" where
  "validColours = [''red'', ''yellow'', ''white'', ''green'']"

text \<open>\<^verbatim>\<open>list.index\<close>: the first position of the element, ValueError when it is absent.\<close>

fun py_index :: "'a list \<Rightarrow> 'a \<Rightarrow> py_error + nat" where
  "py_index [] x = Inl ValueError"
| "py_index (y # ys) x =
     (if y = x then Inr 0
      else (case py_index ys x of Inl e \<Rightarrow> Inl e | Inr n \<Rightarrow> Inr (Suc n)))"

definition calculate_rank :: "string \<Rightarrow> string \<Rightarrow> py_error + int" where
  "calculate_rank col su =
     (case py_index validSuits su of
        Inl e \<Rightarrow> Inl e
      | Inr si \<Rightarrow>
          (case py_index validColours col of
             Inl e \<Rightarrow> Inl e
           | Inr ci \<Rightarrow> Inr (4 * int si + 4 - (int (length validColours) - int ci))))"

text \<open>
  \<^verbatim>\<open>Card.__init__(colour=None, suit=None, active=False)\<close>; \<open>i\<close> is the identity of the
  new object, \<open>None\<close> the Python \<^verbatim>\<open>None\<close>.
\<close>

definition invalid_card :: "nat \<Rightarrow> bool \<Rightarrow> card" where
  "invalid_card i act =
     \<lparr>ident = i, colour = ''invalid'', suit = ''invalid'', rank = 100,
      active = act, locked = False\<rparr>"

definition Card_init :: "nat \<Rightarrow> string option \<Rightarrow> string option \<Rightarrow> bool \<Rightarrow> py_error + card" where
  "Card_init i col su act =
     (case (col, su) of
        (Some c, Some s) \<Rightarrow>
          (if c \<in> set validColours \<and> s \<in> set validSuits
           then (case calculate_rank c s of
                   Inl e \<Rightarrow> Inl e
                 | Inr r \<Rightarrow> Inr \<lparr>ident = i, colour = c, suit = s, rank = r,
                                 active = act, locked = False\<rparr>)
           else Inr (invalid_card i act))
      | _ \<Rightarrow> Inr (invalid_card i act))"

text \<open>The card object that \<^verbatim>\<open>Card(col, su)\<close> builds, with identity \<open>i\<close>.\<close>

definition new_card :: "nat \<Rightarrow> string \<Rightarrow> string \<Rightarrow> card" where
  "new_card i col su =
     (case Card_init i (Some col) (Some su) False of
        Inl e \<Rightarrow> invalid_card i False
      | Inr c \<Rightarrow> c)"

definition lock :: "card \<Rightarrow> card" where
  "lock c = c\<lparr>locked := True\<rparr>"

definition unlock :: "card \<Rightarrow> card" where
  "unlock c = c\<lparr>locked := False\<rparr>"

subsection \<open>The random source\<close>

text \<open>
  \<^verbatim>\<open>np.random\<close> is the only source of randomness. It is modelled by a tape of natural
  numbers that is consumed from the front (an exhausted tape yields 0):
  \<^verbatim>\<open>np.random.choice(xs, 1)[0]\<close> reads one number \<open>r\<close> and picks \<open>xs ! (r mod length xs)\<close>,
  \<^verbatim>\<open>np.random.shuffle(xs)\<close> reads one number for each element and builds the permutation
  by repeated picking.
\<close>

type_synonym tape = "nat list"

fun next_rand :: "tape \<Rightarrow> nat \<times> tape" where
  "next_rand [] = (0, [])"
| "next_rand (r # rs) = (r, rs)"

fun shuffle_pick :: "nat \<Rightarrow> tape \<Rightarrow> 'a list \<Rightarrow> 'a list \<times> tape" where
  "shuffle_pick 0 t xs = (xs, t)"
| "shuffle_pick (Suc n) t xs =
     (if xs = [] then ([], t)
      else (let (r, t') = next_rand t;
                k = r mod length xs;
                (ys, t'') = shuffle_pick n t' (take k xs @ drop (Suc k) xs)
            in ((xs ! k) # ys, t'')))"

definition np_shuffle :: "tape \<Rightarrow> 'a list \<Rightarrow> 'a list \<times> tape" where
  "np_shuffle t xs = shuffle_pick (length xs) t xs"

definition np_choice :: "tape \<Rightarrow> 'a list \<Rightarrow> py_error + ('a \<times> tape)" where
  "np_choice t xs =
     (if xs = [] then Inl ValueError
      else (let (r, t') = next_rand t in Inr (xs ! (r mod length xs), t')))"

subsection \<open>Deck\<close>

record deck =
  ndecks :: int
  cards :: "card list"

text \<open>
  The innermost loop of \<^verbatim>\<open>populate_deck\<close>: \<^verbatim>\<open>for k in range(4*ndecks): cards.append(Card(j,i))\<close>.
  \<open>i\<close> is the identity of the next object to be created.
\<close>

fun populate_copies :: "nat \<Rightarrow> string \<Rightarrow> string \<Rightarrow> nat \<Rightarrow> card list \<Rightarrow> py_error + (card list \<times> nat)" where
  "populate_copies 0 su col i acc = Inr (acc, i)"
| "populate_copies (Suc k) su col i acc =
     (case Card_init i (Some col) (Some su) False of
        Inl e \<Rightarrow> Inl e
      | Inr c \<Rightarrow> populate_copies k su col (Suc i) (acc @ [c]))"

fun populate_colours :: "string list \<Rightarrow> nat \<Rightarrow> string \<Rightarrow> nat \<Rightarrow> card list \<Rightarrow> py_error + (card list \<times> nat)" where
  "populate_colours [] n su i acc = Inr (acc, i)"
| "populate_colours (col # cols) n su i acc =
     (case populate_copies n su col i acc of
        Inl e \<Rightarrow> Inl e
      | Inr (acc', i') \<Rightarrow> populate_colours cols n su i' acc')"

fun populate_suits :: "string list \<Rightarrow> nat \<Rightarrow> nat \<Rightarrow> card list \<Rightarrow> py_error + (card list \<times> nat)" where
  "populate_suits [] n i acc = Inr (acc, i)"
| "populate_suits (su # sus) n i acc =
     (case populate_colours validColours n su i acc of
        Inl e \<Rightarrow> Inl e
      | Inr (acc', i') \<Rightarrow> populate_suits sus n i' acc')"

text \<open>
  \<^verbatim>\<open>Deck.populate_deck(ndecks)\<close>. The source first builds \<^verbatim>\<open>c=Card()\<close>, the invalid
  sentinel, only to read the class attributes through it; it takes the identity \<open>i\<close>.
  \<^verbatim>\<open>range(4*ndecks)\<close> is empty for a non-positive bound.
\<close>

definition populate_deck :: "int \<Rightarrow> nat \<Rightarrow> py_error + (card list \<times> nat)" where
  "populate_deck nd i =
     (case Card_init i None None False of
        Inl e \<Rightarrow> Inl e
      | Inr c \<Rightarrow> populate_suits validSuits (nat (4 * nd)) (Suc i) [])"

definition shuffle_deck :: "tape \<Rightarrow> deck \<Rightarrow> deck \<times> tape" where
  "shuffle_deck t d = (let (cs, t') = np_shuffle t (cards d) in (d\<lparr>cards := cs\<rparr>, t'))"

text \<open>\<^verbatim>\<open>Deck.__init__(ndecks=2, shuffle=True)\<close>.\<close>

definition Deck_init :: "int \<Rightarrow> bool \<Rightarrow> nat \<Rightarrow> tape \<Rightarrow> py_error + (deck \<times> nat \<times> tape)" where
  "Deck_init nd shuffle i t =
     (case populate_deck nd i of
        Inl e \<Rightarrow> Inl e
      | Inr (cs, i') \<Rightarrow>
          (let d = \<lparr>ndecks = nd, cards = cs\<rparr>
           in if shuffle then (let (d', t') = shuffle_deck t d in Inr (d', i', t'))
              else Inr (d, i', t)))"

text \<open>
  \<^verbatim>\<open>Deck.draw_active_card(shuffle=False)\<close>: pops the last card and makes it active;
  \<open>None\<close> when the deck is empty.
\<close>

definition draw_active_card :: "bool \<Rightarrow> tape \<Rightarrow> deck \<Rightarrow> card option \<times> deck \<times> tape" where
  "draw_active_card shuffle t d =
     (let (d1, t1) = (if shuffle then shuffle_deck t d else (d, t))
      in if length (cards d1) < 1 then (None, d1, t1)
         else (Some ((last (cards d1))\<lparr>active := True\<rparr>), d1\<lparr>cards := butlast (cards d1)\<rparr>, t1))"

text \<open>
  \<^verbatim>\<open>Deck.draw_cards(ncards=1, shuffle=False)\<close>. The guard is
  \<^verbatim>\<open>len(self.cards)-ncards < 1\<close> over Python's integers; \<^verbatim>\<open>range(ncards)\<close> is empty
  for a non-positive \<open>ncards\<close>. Each turn of the loop pops the last card
  (\<^verbatim>\<open>list.pop\<close> raises IndexError on an empty list).
\<close>

fun pop_cards :: "nat \<Rightarrow> card list \<Rightarrow> card list \<Rightarrow> py_error + (card list \<times> card list)" where
  "pop_cards 0 cs dcards = Inr (dcards, cs)"
| "pop_cards (Suc k) cs dcards =
     (if cs = [] then Inl IndexError
      else pop_cards k (butlast cs) (dcards @ [last cs]))"

definition draw_cards :: "int \<Rightarrow> bool \<Rightarrow> tape \<Rightarrow> deck \<Rightarrow> py_error + (card list option \<times> deck \<times> tape)" where
  "draw_cards ncards shuffle t d =
     (let (d1, t1) = (if shuffle then shuffle_deck t d else (d, t))
      in if int (length (cards d1)) - ncards < 1 then Inr (None, d1, t1)
         else (case pop_cards (nat ncards) (cards d1) [] of
                 Inl e \<Rightarrow> Inl e
               | Inr (dcards, rest) \<Rightarrow> Inr (Some dcards, d1\<lparr>cards := rest\<rparr>, t1)))"

subsection \<open>Deck construction for a number of players\<close>

text \<open>
  \<^verbatim>\<open>construct_deck(nplayers)\<close>. \<^verbatim>\<open>math.floor((nplayers+1)/2)\<close> divides as floating point;
  for \<open>nplayers + 1 \<le> 2 ^ 53\<close> the quotient is exact and its floor is the integer
  quotient \<open>(nplayers + 1) div 2\<close>.
\<close>

definition construct_ndecks :: "int \<Rightarrow> int" where
  "construct_ndecks nplayers =
     (if nplayers < 2 then 1
      else if nplayers \<le> 4 then 2
      else (nplayers + 1) div 2)"

definition construct_deck :: "int \<Rightarrow> nat \<Rightarrow> tape \<Rightarrow> py_error + (deck \<times> nat \<times> tape)" where
  "construct_deck nplayers i t = Deck_init (construct_ndecks nplayers) True i t"

text \<open>The number of cards of the deck that \<^verbatim>\<open>construct_deck\<close> leaves in the global \<^verbatim>\<open>deck\<close>.\<close>

definition constructed_size :: "int \<Rightarrow> nat \<Rightarrow> tape \<Rightarrow> py_error + int" where
  "constructed_size nplayers i t =
     (case construct_deck nplayers i t of
        Inl e \<Rightarrow> Inl e
      | Inr (d, i', t') \<Rightarrow> Inr (int (length (cards d))))"

subsection \<open>General functions on lists of cards\<close>

text \<open>
  \<^verbatim>\<open>cards_same_colour\<close> and \<^verbatim>\<open>cards_same_suit\<close> read \<^verbatim>\<open>cards[0]\<close> first: IndexError on
  an empty list.
\<close>

fun cards_same_colour :: "card list \<Rightarrow> py_error + bool" where
  "cards_same_colour [] = Inl IndexError"
| "cards_same_colour (c # cs) = Inr (list_all (\<lambda>i. colour i = colour c) (c # cs))"

fun cards_same_suit :: "card list \<Rightarrow> py_error + bool" where
  "cards_same_suit [] = Inl IndexError"
| "cards_same_suit (c # cs) = Inr (list_all (\<lambda>i. suit i = suit c) (c # cs))"

text \<open>
  \<^verbatim>\<open>cards_unique_colours\<close>: for each card \<open>i\<close>, every card \<open>j\<close> that is another object
  (\<^verbatim>\<open>if i == j: continue\<close>) must have another colour.
\<close>

definition cards_unique_colours :: "card list \<Rightarrow> bool" where
  "cards_unique_colours cs =
     list_all (\<lambda>i. list_all (\<lambda>j. ident i = ident j \<or> colour j \<noteq> colour i) cs) cs"

definition cards_all_suit :: "card list \<Rightarrow> string \<Rightarrow> bool" where
  "cards_all_suit cs su = list_all (\<lambda>i. suit i = su) cs"

definition cards_not_in :: "card list \<Rightarrow> card list \<Rightarrow> bool" where
  "cards_not_in cs card_list = list_all (\<lambda>i. ident i \<notin> ident ` set card_list) cs"

definition cards_not_locked :: "card list \<Rightarrow> bool" where
  "cards_not_locked cs = list_all (\<lambda>i. \<not> locked i) cs"

definition contains_active_card :: "card list \<Rightarrow> bool" where
  "contains_active_card cs = list_ex active cs"

definition hand_contains_suit :: "card list \<Rightarrow> string \<Rightarrow> bool" where
  "hand_contains_suit hand su = list_ex (\<lambda>c. suit c = su) hand"

subsection \<open>Set\<close>

record cset =
  scards :: "card list"
  melded :: bool
  invalid :: bool
  same_colour :: bool
  same_suit :: bool
  unique_colours :: bool
  score :: int

text \<open>A block of the method that either returns a value or falls through to the next.\<close>

definition or_else :: "'a option \<Rightarrow> 'a option \<Rightarrow> 'a option" where
  "or_else a b = (case a of Some r \<Rightarrow> Some r | None \<Rightarrow> b)"

text \<open>
  \<^verbatim>\<open>Set.evaluate_score\<close>, on the fields that \<^verbatim>\<open>__init__\<close> has set before the call
  (cards, melded, same_colour, same_suit, unique_colours). It returns the score and the
  value it leaves in \<^verbatim>\<open>self.invalid\<close>. \<^verbatim>\<open>self.cards[0]\<close> raises IndexError on an empty
  list. \<^verbatim>\<open>sorted\<close> is the sort of strings.
\<close>

definition evaluate_score :: "card list \<Rightarrow> bool \<Rightarrow> bool \<Rightarrow> bool \<Rightarrow> bool \<Rightarrow> py_error + (int \<times> bool)" where
  "evaluate_score cs m sc ss uc =
     (case cs of
        [] \<Rightarrow> Inl IndexError
      | c0 # rest \<Rightarrow>
          (case
             or_else
               (if ss \<and> suit c0 \<noteq> ''kuin'' then
                  or_else
                    (if sc then
                       (if length cs = 4 then Some (if m then 6 else 8)
                        else if length cs = 3 then Some (if m then 1 else 3)
                        else if length cs = 2 then Some 0
                        else None)
                     else None)
                    (if uc \<and> suit c0 = ''chut'' then
                       (if length cs = 4 then Some 4
                        else if length cs = 3 then Some 1
                        else None)
                     else None)
                else None)
               (or_else
                  (if sc then
                     (let suits = sort (map suit cs)
                      in if suits = sort [''kuin'', ''tse'', ''xiong''] then Some 2
                         else if suits = sort [''kee'', ''mah'', ''pau''] then Some 1
                         else None)
                   else None)
                  (if suit c0 = ''kuin'' \<and> length cs = 1 then Some 1 else None))
           of Some r \<Rightarrow> Inr (r, False)
            | None \<Rightarrow> Inr (- 1, True)))"

text \<open>\<^verbatim>\<open>Set.__init__(cards)\<close>.\<close>

definition Set_init :: "card list \<Rightarrow> py_error + cset" where
  "Set_init cs =
     (let m = contains_active_card cs
      in case cards_same_colour cs of
           Inl e \<Rightarrow> Inl e
         | Inr sc \<Rightarrow>
             (case cards_same_suit cs of
                Inl e \<Rightarrow> Inl e
              | Inr ss \<Rightarrow>
                  (let uc = cards_unique_colours cs
                   in case evaluate_score cs m sc ss uc of
                        Inl e \<Rightarrow> Inl e
                      | Inr (r, bad) \<Rightarrow>
                          Inr \<lparr>scards = cs, melded = m, invalid = bad, same_colour = sc,
                               same_suit = ss, unique_colours = uc, score = r\<rparr>)))"

definition is_identical_set :: "cset \<Rightarrow> py_error + bool" where
  "is_identical_set s =
     (case cards_same_suit (scards s) of
        Inl e \<Rightarrow> Inl e
      | Inr ss \<Rightarrow> (if ss then cards_same_colour (scards s) else Inr False))"

definition is_four_colour_set :: "cset \<Rightarrow> py_error + bool" where
  "is_four_colour_set s =
     (case cards_same_suit (scards s) of
        Inl e \<Rightarrow> Inl e
      | Inr ss \<Rightarrow>
          Inr (ss \<and> cards_unique_colours (scards s) \<and> length (scards s) = 4
               \<and> suit (hd (scards s)) = ''chut''))"

definition exists_nks :: "cset list \<Rightarrow> bool" where
  "exists_nks hand_sets = list_ex (\<lambda>s. length (scards s) > 1) hand_sets"

subsection \<open>Sorting\<close>

text \<open>
  \<^verbatim>\<open>sort_cards(cards, by)\<close> sorts the list it is given in place (\<^verbatim>\<open>cards.sort\<close> is stable)
  and returns it; with \<^verbatim>\<open>by='colour'\<close> it returns a new list grouped by colour and reads
  \<^verbatim>\<open>cards[0]\<close>. The result is the returned list and the new content of the argument.
\<close>

definition sort_cards :: "card list \<Rightarrow> string \<Rightarrow> py_error + (card list \<times> card list)" where
  "sort_cards cs by =
     (let sorted_in_place = sort_key rank cs
      in if by = ''colour'' then
           (if sorted_in_place = [] then Inl IndexError
            else Inr (concat (map (\<lambda>i. filter (\<lambda>j. colour j = i) sorted_in_place) validColours),
                      sorted_in_place))
         else Inr (sorted_in_place, sorted_in_place))"

subsection \<open>The hand evaluator\<close>

text \<open>
  The evaluator works on the sorted list \<open>cs\<close>, whose cards it locks and unlocks in
  place, and on the list \<open>fs\<close> of found sets. \<^verbatim>\<open>c.lock()\<close> changes the object, so
  every entry of the list that is this object is locked.
\<close>

type_synonym eval_state = "card list \<times> cset list"

definition lock_cards :: "card list \<Rightarrow> card list \<Rightarrow> card list" where
  "lock_cards tc cs = map (\<lambda>c. if ident c \<in> ident ` set tc then lock c else c) cs"

text \<open>
  One test of a candidate group: \<^verbatim>\<open>test_set=Set(test_cards)\<close>, and when the score is
  accepted and no card is locked, the set is appended and its cards are locked.
\<close>

definition try_set :: "(int \<Rightarrow> bool) \<Rightarrow> card list \<Rightarrow> eval_state \<Rightarrow> py_error + (bool \<times> eval_state)" where
  "try_set ok tc st =
     (case Set_init tc of
        Inl e \<Rightarrow> Inl e
      | Inr ts \<Rightarrow>
          (if ok (score ts) \<and> cards_not_locked tc
           then Inr (True, lock_cards tc (fst st), snd st @ [ts])
           else Inr (False, st)))"

text \<open>A \<^verbatim>\<open>for\<close> loop over a range whose body may raise.\<close>

fun for_loop :: "'i list \<Rightarrow> ('i \<Rightarrow> 's \<Rightarrow> py_error + 's) \<Rightarrow> 's \<Rightarrow> py_error + 's" where
  "for_loop [] body s = Inr s"
| "for_loop (x # xs) body s =
     (case body x s of Inl e \<Rightarrow> Inl e | Inr s' \<Rightarrow> for_loop xs body s')"

definition try_at :: "(int \<Rightarrow> bool) \<Rightarrow> nat list \<Rightarrow> eval_state \<Rightarrow> py_error + eval_state" where
  "try_at ok idxs st =
     (case try_set ok (map (\<lambda>i. fst st ! i) idxs) st of
        Inl e \<Rightarrow> Inl e
      | Inr (b, st') \<Rightarrow> Inr st')"

text \<open>Tier 1: the sliding window of four cards; a committed window is skipped.\<close>

function tier1 :: "nat \<Rightarrow> eval_state \<Rightarrow> py_error + eval_state" where
  "tier1 i st =
     (if i + 4 \<le> length (fst st) then
        (case try_set (\<lambda>r. r \<in> {8, 6}) (take 4 (drop i (fst st))) st of
           Inl e \<Rightarrow> Inl e
         | Inr (b, st') \<Rightarrow>
             tier1 (if b then i + 3 + 1 else i + 1) st')
      else Inr st)"
  by pat_completeness auto
termination
  by (relation "measure (\<lambda>(i, st). length (fst st) - i)")
     (auto simp: try_set_def lock_cards_def split: sum.splits if_splits)

text \<open>Tier 2: all groups of four positions \<open>i < j < k < l\<close>, \<open>i\<close> a chut card.\<close>

definition valid_multicolour_suits :: "string list" where
  "valid_multicolour_suits = [''chut'']"

definition tier2 :: "eval_state \<Rightarrow> py_error + eval_state" where
  "tier2 st =
     (let n = length (fst st) in
      for_loop [0..<n] (\<lambda>i s.
        if suit (fst s ! i) \<notin> set valid_multicolour_suits then Inr s
        else for_loop [i + 1..<n] (\<lambda>j.
               for_loop [j + 1..<n] (\<lambda>k.
                 for_loop [k + 1..<n] (\<lambda>l.
                   try_at (\<lambda>r. r = 4) [i, j, k, l]))) s) st)"

text \<open>Tier 3: the sliding window of three cards that are of one suit and one colour.\<close>

function tier3 :: "nat \<Rightarrow> eval_state \<Rightarrow> py_error + eval_state" where
  "tier3 i st =
     (if i + 3 \<le> length (fst st) then
        (let tc = take 3 (drop i (fst st)) in
         case cards_same_suit tc of
           Inl e \<Rightarrow> Inl e
         | Inr ss \<Rightarrow>
             (case (if ss then cards_same_colour tc else Inr False) of
                Inl e \<Rightarrow> Inl e
              | Inr both \<Rightarrow>
                  (if both then
                     (case try_set (\<lambda>r. r \<in> {3, 1}) tc st of
                        Inl e \<Rightarrow> Inl e
                      | Inr (b, st') \<Rightarrow>
                          tier3 (if b then i + 2 + 1 else i + 1) st')
                   else tier3 (i + 1) st)))
      else Inr st)"
  by pat_completeness auto
termination
  by (relation "measure (\<lambda>(i, st). length (fst st) - i)")
     (auto simp: try_set_def lock_cards_def split: sum.splits if_splits)

text \<open>Tier 4: all groups of three positions \<open>i < j < k\<close>.\<close>

definition tier4 :: "eval_state \<Rightarrow> py_error + eval_state" where
  "tier4 st =
     (let n = length (fst st) in
      for_loop [0..<n] (\<lambda>i.
        for_loop [i + 1..<n] (\<lambda>j.
          for_loop [j + 1..<n] (\<lambda>k.
            try_at (\<lambda>r. r \<in> {2, 1}) [i, j, k]))) st)"

text \<open>Tier 5: every kuin that is not locked becomes a set of its own.\<close>

definition tier5 :: "eval_state \<Rightarrow> py_error + eval_state" where
  "tier5 st =
     for_loop [0..<length (fst st)] (\<lambda>p s.
       (let c = fst s ! p in
        if suit c = ''kuin'' \<and> \<not> locked c then
          (case Set_init [c] of
             Inl e \<Rightarrow> Inl e
           | Inr ts \<Rightarrow> Inr (lock_cards [c] (fst s), snd s @ [ts]))
        else Inr s)) st"

text \<open>Tier 6: the sliding window of two cards, advancing by one.\<close>

function tier6 :: "nat \<Rightarrow> eval_state \<Rightarrow> py_error + eval_state" where
  "tier6 i st =
     (if i + 2 \<le> length (fst st) then
        (case try_set (\<lambda>r. r = 0) (take 2 (drop i (fst st))) st of
           Inl e \<Rightarrow> Inl e
         | Inr (b, st') \<Rightarrow>
             tier6 (i + 1) st')
      else Inr st)"
  by pat_completeness auto
termination
  by (relation "measure (\<lambda>(i, st). length (fst st) - i)")
     (auto simp: try_set_def lock_cards_def split: sum.splits if_splits)

text \<open>
  \<^verbatim>\<open>evaluate_hand(hand_cards, return_sets)\<close>. The result is the found sets, the hand
  score, the lang pai, and the content the argument list \<^verbatim>\<open>hand_cards\<close> is left with
  (the source sorts it in place and clears the lock of its cards). Without
  \<^verbatim>\<open>return_sets\<close> the caller receives the score and the lang pai only.
\<close>

record eval_result =
  found_sets :: "cset list"
  res_hand_score :: int
  res_lang_pai :: "card list"
  hand_after :: "card list"

definition evaluate_hand :: "card list \<Rightarrow> py_error + eval_result" where
  "evaluate_hand hand_cards =
     (case sort_cards hand_cards ''suit'' of
        Inl e \<Rightarrow> Inl e
      | Inr (cs0, hand') \<Rightarrow>
     (case tier1 0 (cs0, []) of Inl e \<Rightarrow> Inl e | Inr s1 \<Rightarrow>
     (case tier2 s1 of Inl e \<Rightarrow> Inl e | Inr s2 \<Rightarrow>
     (case tier3 0 s2 of Inl e \<Rightarrow> Inl e | Inr s3 \<Rightarrow>
     (case tier4 s3 of Inl e \<Rightarrow> Inl e | Inr s4 \<Rightarrow>
     (case tier5 s4 of Inl e \<Rightarrow> Inl e | Inr s5 \<Rightarrow>
     (case tier6 0 s5 of Inl e \<Rightarrow> Inl e | Inr (cs, fs) \<Rightarrow>
        Inr \<lparr>found_sets = fs,
             res_hand_score = sum_list (map score fs),
             res_lang_pai = filter (\<lambda>c. \<not> locked c) cs,
             hand_after = map (\<lambda>c. c\<lparr>locked := False\<rparr>) cs\<rparr>)))))))"

subsection \<open>Player\<close>

record player =
  name :: string
  field_discards :: "card list"
  field_melded_sets :: "cset list"
  total_score :: int
  hand :: "card list"
  hand_sets :: "cset list"
  hand_score :: int
  facedown_sets :: "cset list"
  facedown_score :: int
  melded_sets :: "cset list"
  melded_score :: int
  lang_pai :: "card list"
  collection :: "card list"

definition Player_init :: "string \<Rightarrow> player" where
  "Player_init nm =
     \<lparr>name = nm, field_discards = [], field_melded_sets = [], total_score = 0, hand = [],
      hand_sets = [], hand_score = 0, facedown_sets = [], facedown_score = 0,
      melded_sets = [], melded_score = 0, lang_pai = [], collection = []\<rparr>"

text \<open>\<^verbatim>\<open>list.remove(c)\<close>: removes the first entry that is the object \<open>c\<close>, ValueError when there is none.\<close>

fun py_remove :: "card \<Rightarrow> card list \<Rightarrow> py_error + card list" where
  "py_remove c [] = Inl ValueError"
| "py_remove c (x # xs) =
     (if ident x = ident c then Inr xs
      else (case py_remove c xs of Inl e \<Rightarrow> Inl e | Inr ys \<Rightarrow> Inr (x # ys)))"

text \<open>\<^verbatim>\<open>for c in cs: h.remove(c)\<close>.\<close>

fun remove_all :: "card list \<Rightarrow> card list \<Rightarrow> py_error + card list" where
  "remove_all [] h = Inr h"
| "remove_all (c # cs) h =
     (case py_remove c h of Inl e \<Rightarrow> Inl e | Inr h' \<Rightarrow> remove_all cs h')"

text \<open>
  \<^verbatim>\<open>Player.update_collection\<close>: clears the lock of the cards of the hand and rebuilds the
  sorted list of all cards of the player.
\<close>

definition update_collection :: "player \<Rightarrow> py_error + player" where
  "update_collection p =
     (let h = map (\<lambda>c. c\<lparr>locked := False\<rparr>) (hand p);
          coll = h @ concat (map scards (facedown_sets p)) @ concat (map scards (melded_sets p))
      in case sort_cards coll ''suit'' of
           Inl e \<Rightarrow> Inl e
         | Inr (sorted_cards, coll') \<Rightarrow> Inr (p\<lparr>hand := h, collection := sorted_cards\<rparr>))"

text \<open>
  \<^verbatim>\<open>Player.evaluate_player_hand\<close>. \<^verbatim>\<open>evaluate_hand(self.hand)\<close> leaves the list of the hand
  sorted.
\<close>

definition evaluate_player_hand :: "player \<Rightarrow> py_error + player" where
  "evaluate_player_hand p =
     (case evaluate_hand (hand p) of
        Inl e \<Rightarrow> Inl e
      | Inr r \<Rightarrow>
          update_collection
            (p\<lparr>hand := hand_after r, hand_sets := found_sets r,
               hand_score := res_hand_score r, lang_pai := res_lang_pai r,
               total_score := res_hand_score r + facedown_score p + melded_score p\<rparr>))"

definition can_win :: "player \<Rightarrow> bool" where
  "can_win p = (length (lang_pai p) = 0 \<and> total_score p \<ge> 9)"

definition can_tok :: "player \<Rightarrow> int \<Rightarrow> card list \<Rightarrow> bool" where
  "can_tok p hs lp =
     (hs = hand_score p \<and> length lp < length (lang_pai p) \<and> length (lang_pai p) > 0
      \<and> total_score p \<ge> 9)"

text \<open>
  \<^verbatim>\<open>Player.separate_facedown_sets\<close>: the body of the loop over the found sets, then the
  method. A set that is put face down leaves the hand.
\<close>

definition put_facedown :: "cset \<Rightarrow> player \<Rightarrow> py_error + player" where
  "put_facedown s p =
     (case remove_all (scards s) (hand p) of
        Inl e \<Rightarrow> Inl e
      | Inr h \<Rightarrow>
          Inr (p\<lparr>facedown_sets := facedown_sets p @ [s], hand := h,
                 facedown_score := facedown_score p + score s\<rparr>))"

definition separate_step :: "cset \<Rightarrow> player \<Rightarrow> py_error + player" where
  "separate_step s p =
     (if length (scards s) = 4 then
        (case cards_same_suit (scards s) of
           Inl e \<Rightarrow> Inl e
         | Inr ss \<Rightarrow>
             (if ss then
                (if cards_unique_colours (scards s) then
                   (case remove_all (scards s) (hand p) of
                      Inl e \<Rightarrow> Inl e
                    | Inr th \<Rightarrow>
                        (if \<not> hand_contains_suit th ''chut'' then put_facedown s p else Inr p))
                 else
                   (case cards_same_colour (scards s) of
                      Inl e \<Rightarrow> Inl e
                    | Inr sc \<Rightarrow> (if sc then put_facedown s p else Inr p)))
              else Inr p))
      else Inr p)"

definition separate_facedown_sets :: "player \<Rightarrow> py_error + player" where
  "separate_facedown_sets p =
     (case evaluate_hand (hand p) of
        Inl e \<Rightarrow> Inl e
      | Inr r \<Rightarrow> for_loop (found_sets r) separate_step (p\<lparr>hand := hand_after r\<rparr>))"

text \<open>
  \<^verbatim>\<open>Player.give_cards(cards)\<close>. The argument is what \<^verbatim>\<open>deck.draw_cards\<close> returned: iterating
  over \<^verbatim>\<open>None\<close> raises TypeError.
\<close>

definition give_cards :: "card list option \<Rightarrow> player \<Rightarrow> py_error + player" where
  "give_cards cs p =
     (case cs of
        None \<Rightarrow> Inl TypeError
      | Some dealt \<Rightarrow>
          (case sort_cards (hand p @ dealt) ''suit'' of
             Inl e \<Rightarrow> Inl e
           | Inr (sorted_cards, h') \<Rightarrow>
               (case separate_facedown_sets (p\<lparr>hand := sorted_cards\<rparr>) of
                  Inl e \<Rightarrow> Inl e
                | Inr p1 \<Rightarrow> evaluate_player_hand p1)))"

text \<open>
  \<^verbatim>\<open>Player.discard_card\<close>. \<open>discard_from\<close> is the block that the four branches share:
  choose a card of the list at random, remove it from the hand, evaluate the hand again.
\<close>

definition discard_from :: "tape \<Rightarrow> player \<Rightarrow> card list \<Rightarrow> py_error + (card option \<times> player \<times> tape)" where
  "discard_from t p cs =
     (case np_choice t cs of
        Inl e \<Rightarrow> Inl e
      | Inr (dc, t') \<Rightarrow>
          (case py_remove dc (hand p) of
             Inl e \<Rightarrow> Inl e
           | Inr h \<Rightarrow>
               (case evaluate_player_hand (p\<lparr>hand := h\<rparr>) of
                  Inl e \<Rightarrow> Inl e
                | Inr p' \<Rightarrow> Inr (Some dc, p', t'))))"

text \<open>
  The lowest score of the sets of more than one card (\<^verbatim>\<open>ms = 10\<close>, then the loop), and the
  loop that draws a set at random until it is such a set of this score. On an exhausted
  tape every draw is 0: when the first set is rejected then, the loop never ends, which is
  the value NonTermination.
\<close>

definition lowest_score :: "cset list \<Rightarrow> int" where
  "lowest_score sets =
     foldl (\<lambda>ms s. if length (scards s) > 1 \<and> score s < ms then score s else ms) 10 sets"

fun choose_set :: "tape \<Rightarrow> cset list \<Rightarrow> int \<Rightarrow> py_error + (cset \<times> tape)" where
  "choose_set [] sets ms =
     (if sets = [] then Inl ValueError
      else (let rs = sets ! (0 mod length sets)
            in if length (scards rs) = 1 \<or> score rs \<noteq> ms then Inl NonTermination
               else Inr (rs, [])))"
| "choose_set (r # t) sets ms =
     (if sets = [] then Inl ValueError
      else (let rs = sets ! (r mod length sets)
            in if length (scards rs) = 1 \<or> score rs \<noteq> ms then choose_set t sets ms
               else Inr (rs, t)))"

definition discard_card :: "tape \<Rightarrow> player \<Rightarrow> py_error + (card option \<times> player \<times> tape)" where
  "discard_card t p =
     (if length (lang_pai p) > 0 then discard_from t p (lang_pai p)
      else if \<not> can_win p then
        (if \<not> exists_nks (hand_sets p) then Inr (None, p, t)
         else
           (case find (\<lambda>s. length (scards s) = 2) (hand_sets p) of
              Some s \<Rightarrow> discard_from t p (scards s)
            | None \<Rightarrow>
                (case find (\<lambda>s. length (scards s) = 3 \<and> cards_all_suit (scards s) ''chut'')
                        (hand_sets p) of
                   Some s \<Rightarrow> discard_from t p (scards s)
                 | None \<Rightarrow>
                     (case choose_set t (hand_sets p) (lowest_score (hand_sets p)) of
                        Inl e \<Rightarrow> Inl e
                      | Inr (rs, t') \<Rightarrow> discard_from t' p (scards rs)))))
      else Inr (None, p, t))"

text \<open>
  \<^verbatim>\<open>Player.play_turn(active_card, drawn, return_set=True)\<close>. The second component of the
  result of the source is a card to discard, \<^verbatim>\<open>'draw'\<close> or \<^verbatim>\<open>'kaeu'\<close>. With \<^verbatim>\<open>return_set\<close>
  false the source returns this component alone.
\<close>

datatype outcome = Discard card | Draw | Kaeu

text \<open>The loop \<^verbatim>\<open>for s in fs: if s.melded: ...\<close> on the player, the list \<open>h\<close> and \<open>ms\<close>.\<close>

fun meld_sets :: "cset list \<Rightarrow> player \<times> card list \<times> cset option \<Rightarrow>
    py_error + (player \<times> card list \<times> cset option)" where
  "meld_sets [] st = Inr st"
| "meld_sets (s # ss) (p, h, ms) =
     (if melded s then
        (case remove_all (scards s) h of
           Inl e \<Rightarrow> Inl e
         | Inr h' \<Rightarrow>
             meld_sets ss
               (p\<lparr>melded_sets := melded_sets p @ [s], melded_score := melded_score p + score s\<rparr>,
                h', Some s))
      else meld_sets ss (p, h, ms))"

text \<open>
  The rollback \<^verbatim>\<open>self.melded_sets.remove(ms)\<close>: \<open>ms\<close> is \<^verbatim>\<open>None\<close> (ValueError, no entry is
  \<^verbatim>\<open>None\<close>) or the Set object that this call appended last to \<^verbatim>\<open>melded_sets\<close>; Sets compare
  by identity, so the entry removed is the last one.
\<close>

definition rollback :: "cset option \<Rightarrow> card list \<Rightarrow> player \<Rightarrow> py_error + player" where
  "rollback ms old_hand p =
     (case ms of
        None \<Rightarrow> Inl ValueError
      | Some m \<Rightarrow>
          evaluate_player_hand
            (p\<lparr>melded_sets := butlast (melded_sets p),
               melded_score := melded_score p - score m,
               hand := old_hand\<rparr>))"

definition play_turn :: "card option \<Rightarrow> bool \<Rightarrow> tape \<Rightarrow> player \<Rightarrow>
    py_error + ((cset option \<times> outcome) \<times> player \<times> tape)" where
  "play_turn active_card drawn t p =
     (case active_card of
        None \<Rightarrow> Inl AttributeError
      | Some a \<Rightarrow>
          (let old_hand = hand p in
           case evaluate_hand (hand p @ [a]) of
             Inl e \<Rightarrow> Inl e
           | Inr r \<Rightarrow>
               (if res_hand_score r > hand_score p \<or> can_tok p (res_hand_score r) (res_lang_pai r)
                then
                  (case meld_sets (found_sets r) (p, hand_after r, None) of
                     Inl e \<Rightarrow> Inl e
                   | Inr (p1, h, ms) \<Rightarrow>
                       (case evaluate_player_hand (p1\<lparr>hand := h\<rparr>) of
                          Inl e \<Rightarrow> Inl e
                        | Inr p2 \<Rightarrow>
                            (if can_win p2 then Inr ((ms, Kaeu), p2, t)
                             else
                               (case discard_card t p2 of
                                  Inl e \<Rightarrow> Inl e
                                | Inr (None, p3, t') \<Rightarrow>
                                    (case rollback ms old_hand p3 of
                                       Inl e \<Rightarrow> Inl e
                                     | Inr p4 \<Rightarrow>
                                         Inr ((None, if drawn then Discard a else Draw), p4, t'))
                                | Inr (Some dc, p3, t') \<Rightarrow>
                                    Inr ((ms, Discard (dc\<lparr>active := True\<rparr>)), p3, t')))))
                else if drawn then Inr ((None, Discard a), p, t)
                else Inr ((None, Draw), p, t))))"

text \<open>\<^verbatim>\<open>Player.check_meld(active_card)\<close>: a query, the player is not changed.\<close>

definition check_meld :: "card option \<Rightarrow> player \<Rightarrow> py_error + cset option" where
  "check_meld active_card p =
     (case active_card of
        None \<Rightarrow> Inl AttributeError
      | Some a \<Rightarrow>
          (case evaluate_hand (hand p @ [a]) of
             Inl e \<Rightarrow> Inl e
           | Inr r \<Rightarrow>
               (case find melded (found_sets r) of
                  None \<Rightarrow> Inr None
                | Some ms \<Rightarrow>
                    (let fs = remove1 ms (found_sets r)
                     in if (length (res_lang_pai r) > 0 \<or> exists_nks fs)
                           \<and> res_hand_score r > hand_score p
                        then Inr (Some ms) else Inr None))))"

definition update_field_info :: "card list \<Rightarrow> cset list \<Rightarrow> player \<Rightarrow> player" where
  "update_field_info dcards msets p = p\<lparr>field_discards := dcards, field_melded_sets := msets\<rparr>"

subsection \<open>The game: the global variables of \<^verbatim>\<open>game.py\<close>\<close>

text \<open>
  The global variables of the module, with the random tape and the identity of the next
  object to be created.
\<close>

record game =
  deck :: deck
  players :: "player list"
  current_player :: nat
  active_card :: "card option"
  discards :: "card list"
  faceup_sets :: "cset list"
  turn_count :: int
  verbose :: bool
  enable_oot :: bool
  rng :: tape
  next_ident :: nat

text \<open>A variable that holds an object or \<^verbatim>\<open>None\<close>, as the list of the objects it holds.\<close>

definition opt_list :: "'a option \<Rightarrow> 'a list" where
  "opt_list x = (case x of None \<Rightarrow> [] | Some y \<Rightarrow> [y])"

text \<open>
  \<^verbatim>\<open>setup_game(agents)\<close>. \<open>deal_to n i\<close> is \<^verbatim>\<open>players[i].give_cards(deck.draw_cards(n))\<close>.
  \<^verbatim>\<open>np.random.choice(range(len(players)),1)\<close> raises ValueError when there is no player.
\<close>

definition deal_to :: "int \<Rightarrow> nat \<Rightarrow> game \<Rightarrow> py_error + game" where
  "deal_to n i g =
     (if i < length (players g) then
        (case draw_cards n False (rng g) (deck g) of
           Inl e \<Rightarrow> Inl e
         | Inr (cs, d, t) \<Rightarrow>
             (case give_cards cs (players g ! i) of
                Inl e \<Rightarrow> Inl e
              | Inr p \<Rightarrow> Inr (g\<lparr>deck := d, rng := t, players := (players g)[i := p]\<rparr>)))
      else Inl IndexError)"

definition setup_game :: "player list \<Rightarrow> game \<Rightarrow> py_error + game" where
  "setup_game agents g0 =
     (let g1 = g0\<lparr>active_card := None, turn_count := 0, discards := [], faceup_sets := [],
                  players := agents\<rparr>
      in case construct_deck (int (length agents)) (next_ident g1) (rng g1) of
           Inl e \<Rightarrow> Inl e
         | Inr (d, i', t1) \<Rightarrow>
             (case np_choice t1 [0..<length agents] of
                Inl e \<Rightarrow> Inl e
              | Inr (fp, t2) \<Rightarrow>
                  (case for_loop [0..<length agents] (deal_to 20)
                          (g1\<lparr>deck := d, next_ident := i', rng := t2, current_player := fp\<rparr>) of
                     Inl e \<Rightarrow> Inl e
                   | Inr g2 \<Rightarrow> deal_to 1 fp g2)))"

text \<open>
  \<^verbatim>\<open>check_oot(drawn)\<close>. \<open>oot_scan\<close> is one of the two loops \<^verbatim>\<open>for i in range(len(players))\<close>
  for identical sets of the given size: it returns the value of \<open>cp\<close> after the loop, or
  the result with which the function returns from inside the loop.
\<close>

fun oot_scan :: "nat \<Rightarrow> nat \<Rightarrow> cset option list \<Rightarrow> nat \<Rightarrow> game \<Rightarrow>
    py_error + (nat + string \<times> game)" where
  "oot_scan 0 sz oot_sets cp g = Inr (Inl cp)"
| "oot_scan (Suc k) sz oot_sets cp g =
     (if cp \<ge> length oot_sets then Inl IndexError
      else if length (players g) = 0 then Inl ZeroDivisionError
      else
        (case oot_sets ! cp of
           None \<Rightarrow> oot_scan k sz oot_sets ((cp + 1) mod length (players g)) g
         | Some s \<Rightarrow>
             (case is_identical_set s of
                Inl e \<Rightarrow> Inl e
              | Inr idt \<Rightarrow>
                  (if idt \<and> length (scards s) = sz then
                     (if cp = (current_player g + 1) mod length (players g)
                      then Inr (Inr (''meld'', g))
                      else Inr (Inr (''oot'', g\<lparr>current_player := cp\<rparr>)))
                   else oot_scan k sz oot_sets ((cp + 1) mod length (players g)) g))))"

text \<open>The list \<^verbatim>\<open>oot_sets\<close>: \<^verbatim>\<open>check_meld\<close> of every player, in order.\<close>

fun collect_melds :: "card option \<Rightarrow> player list \<Rightarrow> py_error + cset option list" where
  "collect_melds a [] = Inr []"
| "collect_melds a (p # ps) =
     (case check_meld a p of
        Inl e \<Rightarrow> Inl e
      | Inr m \<Rightarrow> (case collect_melds a ps of Inl e \<Rightarrow> Inl e | Inr ms \<Rightarrow> Inr (m # ms)))"

definition check_oot :: "bool \<Rightarrow> game \<Rightarrow> py_error + (string \<times> game)" where
  "check_oot drawn g =
     (case collect_melds (active_card g) (players g) of
        Inl e \<Rightarrow> Inl e
      | Inr oot_sets \<Rightarrow>
          (case oot_scan (length (players g)) 4 oot_sets (current_player g) g of
             Inl e \<Rightarrow> Inl e
           | Inr (Inr res) \<Rightarrow> Inr res
           | Inr (Inl cp) \<Rightarrow>
               (if cp \<ge> length oot_sets then Inl IndexError
                else
                  (case (case oot_sets ! cp of
                           None \<Rightarrow> Inr False
                         | Some s \<Rightarrow> is_four_colour_set s) of
                     Inl e \<Rightarrow> Inl e
                   | Inr four \<Rightarrow>
                       (if four then Inr (''meld'', g)
                        else
                          (case oot_scan (length (players g)) 3 oot_sets cp g of
                             Inl e \<Rightarrow> Inl e
                           | Inr (Inr res) \<Rightarrow> Inr res
                           | Inr (Inl cp') \<Rightarrow> Inr (''meld'', g)))))))"

text \<open>
  \<^verbatim>\<open>conduct_turn(oot_turn)\<close>, block by block. The deck that has no card left is replenished
  from the discards (\<^verbatim>\<open>for c in discards: deck.cards.append(c)\<close>, then the shuffle);
  \<open>None\<close> is the return of \<^verbatim>\<open>'exit'\<close>.
\<close>

definition replenish_deck :: "game \<Rightarrow> game option" where
  "replenish_deck g =
     (if length (cards (deck g)) = 0 then
        (if length (discards g) = 0 then None
         else (let (d, t) = shuffle_deck (rng g) ((deck g)\<lparr>cards := cards (deck g) @ discards g\<rparr>)
               in Some (g\<lparr>deck := d, rng := t\<rparr>)))
      else Some g)"

text \<open>The recovery \<^verbatim>\<open>if active_card == None: active_card=deck.draw_active_card()\<close>.\<close>

definition recover_active :: "game \<Rightarrow> game" where
  "recover_active g =
     (if active_card g = None then
        (let (c, d, t) = draw_active_card False (rng g) (deck g)
         in g\<lparr>active_card := c, deck := d, rng := t\<rparr>)
      else g)"

text \<open>
  \<^verbatim>\<open>ms, x = players[current_player].play_turn(active_card=active_card, drawn=..., return_set=True)\<close>
\<close>

definition player_turn :: "bool \<Rightarrow> game \<Rightarrow> py_error + ((cset option \<times> outcome) \<times> game)" where
  "player_turn drawn g =
     (if current_player g \<ge> length (players g) then Inl IndexError
      else
        (case play_turn (active_card g) drawn (rng g) (players g ! current_player g) of
           Inl e \<Rightarrow> Inl e
         | Inr (res, p, t) \<Rightarrow>
             Inr (res, g\<lparr>players := (players g)[current_player g := p], rng := t\<rparr>)))"

text \<open>
  The end of the turn, from \<^verbatim>\<open>if ms != None\<close> on; \<open>x\<close> is the card that the player
  discards.
\<close>

definition finish_turn :: "bool \<Rightarrow> cset option \<Rightarrow> card option \<Rightarrow> game \<Rightarrow> py_error + (string \<times> game)" where
  "finish_turn oot_turn ms x g =
     (let g1 = (case ms of None \<Rightarrow> g | Some m \<Rightarrow> g\<lparr>faceup_sets := faceup_sets g @ [m]\<rparr>);
          g2 = g1\<lparr>active_card := x, turn_count := turn_count g1 + 1\<rparr>
      in if \<not> oot_turn \<and> enable_oot g2 then
           (case check_oot False g2 of
              Inl e \<Rightarrow> Inl e
            | Inr (oot, g3) \<Rightarrow>
                (if oot = ''oot'' then Inr (''oot'', g3)
                 else if length (players g3) = 0 then Inl ZeroDivisionError
                 else Inr (''next'',
                        g3\<lparr>current_player := (current_player g3 + 1) mod length (players g3)\<rparr>)))
         else if length (players g2) = 0 then Inl ZeroDivisionError
         else Inr (''next'',
                g2\<lparr>current_player := (current_player g2 + 1) mod length (players g2)\<rparr>))"

definition conduct_turn :: "bool \<Rightarrow> game \<Rightarrow> py_error + (string \<times> game)" where
  "conduct_turn oot_turn g0 =
     (let g = g0\<lparr>players := map (update_field_info (discards g0) (faceup_sets g0)) (players g0)\<rparr>
      in if current_player g \<ge> length (players g) then Inl IndexError
         else if length (collection (players g ! current_player g)) = 21 \<and> active_card g = None
         then
           (case discard_card (rng g) (players g ! current_player g) of
              Inl e \<Rightarrow> Inl e
            | Inr (None, p, t) \<Rightarrow> Inl AttributeError
            | Inr (Some c, p, t) \<Rightarrow>
                Inr (''next'',
                     g\<lparr>players := (players g)[current_player g := p], rng := t,
                       active_card := Some (c\<lparr>active := True\<rparr>),
                       current_player := (current_player g + 1) mod length (players g)\<rparr>))
         else
           (case replenish_deck g of
              None \<Rightarrow> Inr (''exit'', g)
            | Some g1 \<Rightarrow>
                (let g2 = recover_active g1 in
                 if verbose g2 \<and> active_card g2 = None then Inl AttributeError
                 else
                   (case player_turn oot_turn g2 of
                      Inl e \<Rightarrow> Inl e
                    | Inr ((ms, Draw), g3) \<Rightarrow>
                        (let (c, d, t) = draw_active_card False (rng g3) (deck g3);
                             g4 = g3\<lparr>discards := discards g3 @ opt_list (active_card g3),
                                     active_card := c, deck := d, rng := t\<rparr>
                         in case (if \<not> oot_turn \<and> enable_oot g4 then check_oot True g4
                                  else Inr (''meld'', g4)) of
                              Inl e \<Rightarrow> Inl e
                            | Inr (oot, g5) \<Rightarrow>
                                (if oot = ''oot'' then Inr (''oot'', g5)
                                 else
                                   (case player_turn True g5 of
                                      Inl e \<Rightarrow> Inl e
                                    | Inr ((ms', Kaeu), g6) \<Rightarrow> Inr (''win'', g6)
                                    | Inr ((ms', Discard c'), g6) \<Rightarrow>
                                        finish_turn oot_turn ms' (Some c') g6
                                    | Inr ((ms', Draw), g6) \<Rightarrow> Inl TypeError)))
                    | Inr ((ms, Kaeu), g3) \<Rightarrow> Inr (''win'', g3)
                    | Inr ((ms, Discard c), g3) \<Rightarrow> finish_turn oot_turn ms (Some c) g3))))"

text \<open>
  In \<open>conduct_turn\<close>, the second \<^verbatim>\<open>play_turn\<close> is called with \<^verbatim>\<open>drawn=True\<close> and never returns
  \<^verbatim>\<open>'draw'\<close> (lemma \<open>play_turn_drawn\<close>); the source would store the string in
  \<^verbatim>\<open>active_card\<close>, the model gives this branch the value TypeError.
\<close>

text \<open>All cards that the table and the players hold, as the card conservation counts them.\<close>

definition player_cards :: "player \<Rightarrow> card list" where
  "player_cards p =
     hand p @ concat (map scards (facedown_sets p)) @ concat (map scards (melded_sets p))"

definition all_cards :: "game \<Rightarrow> card list" where
  "all_cards g =
     cards (deck g) @ discards g @ concat (map player_cards (players g))
       @ opt_list (active_card g)"

subsection \<open>The scoring table of the specification\<close>

text \<open>
  The rows of the table of the specification (section 4.1), written after its words and
  in its order; the first matching row wins, and a composition that matches no row has
  the score -1 and is invalid. A set is melded when it contains the card marked active.
  Colours are unique when no two different cards of the set have the same colour.
\<close>

definition spec_identical_non_kuin :: "card list \<Rightarrow> bool" where
  "spec_identical_non_kuin cs =
     (length (remdups (map suit cs)) = 1 \<and> length (remdups (map colour cs)) = 1
      \<and> ''kuin'' \<notin> set (map suit cs))"

definition spec_unique_colour_chut :: "card list \<Rightarrow> bool" where
  "spec_unique_colour_chut cs =
     (set (map suit cs) \<subseteq> {''chut''}
      \<and> (\<forall>c \<in> set cs. \<forall>d \<in> set cs. ident c \<noteq> ident d \<longrightarrow> colour c \<noteq> colour d))"

definition spec_same_colour_suits :: "card list \<Rightarrow> string list \<Rightarrow> bool" where
  "spec_same_colour_suits cs sus =
     (length (remdups (map colour cs)) = 1 \<and> mset (map suit cs) = mset sus)"

definition spec_score_table :: "card list \<Rightarrow> (bool \<times> int) list" where
  "spec_score_table cs =
     [(length cs = 4 \<and> spec_identical_non_kuin cs, if list_ex active cs then 6 else 8),
      (length cs = 3 \<and> spec_identical_non_kuin cs, if list_ex active cs then 1 else 3),
      (length cs = 2 \<and> spec_identical_non_kuin cs, 0),
      (length cs = 4 \<and> spec_unique_colour_chut cs, 4),
      (length cs = 3 \<and> spec_unique_colour_chut cs, 1),
      (length cs = 3 \<and> spec_same_colour_suits cs [''kuin'', ''tse'', ''xiong''], 2),
      (length cs = 3 \<and> spec_same_colour_suits cs [''kee'', ''mah'', ''pau''], 1),
      (length cs = 1 \<and> map suit cs = [''kuin''], 1)]"

fun spec_first_row :: "(bool \<times> int) list \<Rightarrow> int option" where
  "spec_first_row [] = None"
| "spec_first_row ((b, v) # rows) = (if b then Some v else spec_first_row rows)"

definition spec_score :: "card list \<Rightarrow> int \<times> bool" where
  "spec_score cs =
     (case spec_first_row (spec_score_table cs) of
        Some v \<Rightarrow> (v, False)
      | None \<Rightarrow> (- 1, True))"

subsection \<open>The out-of-turn priority of the specification\<close>

text \<open>
  Written after the words of the specification (section 4.6). A player is eligible for
  the tier of identical sets of \<open>k\<close> cards when \<open>check_meld\<close> gives him such a set. The
  players are scanned in turn order from the current player; the first eligible player
  decides: no reassignment (\<^verbatim>\<open>'meld'\<close>) when he is the natural next player, otherwise he
  becomes the current player (\<^verbatim>\<open>'oot'\<close>). The tier of four identical cards comes first,
  then the four-colour chut, which the current player alone may claim, then the tier of
  three identical cards.
\<close>

definition spec_eligible :: "nat \<Rightarrow> card \<Rightarrow> player \<Rightarrow> bool" where
  "spec_eligible k a p =
     (case check_meld (Some a) p of
        Inr (Some s) \<Rightarrow>
          length (scards s) = k \<and>
          (\<forall>c \<in> set (scards s). suit c = suit (hd (scards s)) \<and> colour c = colour (hd (scards s)))
      | _ \<Rightarrow> False)"

definition spec_four_colour :: "card \<Rightarrow> player \<Rightarrow> bool" where
  "spec_four_colour a p =
     (case check_meld (Some a) p of
        Inr (Some s) \<Rightarrow>
          length (scards s) = 4 \<and> (\<forall>c \<in> set (scards s). suit c = ''chut'') \<and>
          cards_unique_colours (scards s)
      | _ \<Rightarrow> False)"

definition spec_scan_order :: "game \<Rightarrow> nat list" where
  "spec_scan_order g =
     map (\<lambda>j. (current_player g + j) mod length (players g)) [0..<length (players g)]"

definition spec_first_eligible :: "nat \<Rightarrow> card \<Rightarrow> game \<Rightarrow> nat option" where
  "spec_first_eligible k a g =
     find (\<lambda>i. spec_eligible k a (players g ! i)) (spec_scan_order g)"

definition spec_resolve :: "game \<Rightarrow> nat \<Rightarrow> string \<times> game" where
  "spec_resolve g j =
     (if j = (current_player g + 1) mod length (players g) then (''meld'', g)
      else (''oot'', g\<lparr>current_player := j\<rparr>))"

definition spec_check_oot :: "card \<Rightarrow> game \<Rightarrow> string \<times> game" where
  "spec_check_oot a g =
     (case spec_first_eligible 4 a g of
        Some j \<Rightarrow> spec_resolve g j
      | None \<Rightarrow>
          (if spec_four_colour a (players g ! current_player g) then (''meld'', g)
           else (case spec_first_eligible 3 a g of
                   Some j \<Rightarrow> spec_resolve g j
                 | None \<Rightarrow> (''meld'', g))))"

text \<open>What \<open>check_meld\<close> returns for a card, \<open>None\<close> also when it raises.\<close>

definition meld_of :: "card \<Rightarrow> player \<Rightarrow> cset option" where
  "meld_of a p = (case check_meld (Some a) p of Inr m \<Rightarrow> m | Inl e \<Rightarrow> None)"

subsection \<open>Invariants of the hand evaluator\<close>

text \<open>
  Every tier changes the state of the evaluator in one way only: a group of unlocked
  cards at increasing positions of the list, whose Set has an accepted score, is
  committed: the Set is appended and the cards are locked. A property of the state is
  closed under commits when every such step preserves it.
\<close>

definition commit :: "nat list \<Rightarrow> cset \<Rightarrow> eval_state \<Rightarrow> eval_state" where
  "commit idxs ts st = (lock_cards (map (\<lambda>i. fst st ! i) idxs) (fst st), snd st @ [ts])"

definition commit_closed :: "(eval_state \<Rightarrow> bool) \<Rightarrow> bool" where
  "commit_closed P =
     (\<forall>st idxs ts.
        P st \<longrightarrow> idxs \<noteq> [] \<longrightarrow> sorted_wrt (<) idxs \<longrightarrow> (\<forall>i \<in> set idxs. i < length (fst st)) \<longrightarrow>
        cards_not_locked (map (\<lambda>i. fst st ! i) idxs) \<longrightarrow>
        Set_init (map (\<lambda>i. fst st ! i) idxs) = Inr ts \<longrightarrow>
        score ts \<in> {8, 6, 4, 3, 2, 1, 0} \<longrightarrow>
        P (commit idxs ts st))"

text \<open>
  The list keeps its cards (only their locks change), and every card of a found set was
  unlocked when the set was built.
\<close>

definition list_inv :: "card list \<Rightarrow> eval_state \<Rightarrow> bool" where
  "list_inv u st =
     (map unlock (fst st) = u \<and> (\<forall>t \<in> set (snd st). cards_not_locked (scards t)))"

text \<open>
  For a list of distinct card objects: the found sets hold distinct cards of the list,
  they hold exactly the cards that are locked, and no found set is invalid.
\<close>

definition found_cards :: "cset list \<Rightarrow> card list" where
  "found_cards fs = concat (map scards fs)"

definition part_inv :: "card list \<Rightarrow> eval_state \<Rightarrow> bool" where
  "part_inv u st =
     (map unlock (fst st) = u \<and> distinct (map ident u) \<and>
      distinct (map ident (found_cards (snd st))) \<and>
      ident ` set (found_cards (snd st)) = ident ` {c \<in> set (fst st). locked c} \<and>
      set (found_cards (snd st)) \<subseteq> set u \<and>
      (\<forall>t \<in> set (snd st). score t \<in> {8, 6, 4, 3, 2, 1, 0} \<and> \<not> invalid t))"

section \<open>Properties\<close>

subsection \<open>Card construction\<close>

lemma py_index_mem: "x \<in> set xs \<Longrightarrow> \<exists>n. py_index xs x = Inr n \<and> n < length xs"
  by (induction xs) auto

lemma calculate_rank_valid:
  assumes "c \<in> set validColours" "s \<in> set validSuits"
  shows "\<exists>r. calculate_rank c s = Inr r"
proof -
  from py_index_mem[OF assms(2)] obtain si where "py_index validSuits s = Inr si" by blast
  moreover from py_index_mem[OF assms(1)] obtain ci where "py_index validColours c = Inr ci" by blast
  ultimately show ?thesis by (simp add: calculate_rank_def)
qed

lemma Card_init_total: "\<exists>c. Card_init i col su act = Inr c"
proof (cases "\<exists>c s. col = Some c \<and> su = Some s \<and> c \<in> set validColours \<and> s \<in> set validSuits")
  case True
  then obtain c s where cs: "col = Some c" "su = Some s" "c \<in> set validColours" "s \<in> set validSuits"
    by blast
  from calculate_rank_valid[OF cs(3,4)] obtain r where "calculate_rank c s = Inr r" by blast
  with cs show ?thesis by (simp add: Card_init_def)
next
  case False
  then show ?thesis by (auto simp: Card_init_def split: option.splits)
qed


lemma new_card_eq:
  assumes "calculate_rank col su = Inr r" "col \<in> set validColours" "su \<in> set validSuits"
  shows "new_card i col su =
           \<lparr>ident = i, colour = col, suit = su, rank = r, active = False, locked = False\<rparr>"
  using assms by (simp add: new_card_def Card_init_def)

text \<open>
  C9 (as the code has it). Constructing a Card whose colour is outside
  red, yellow, white, green or whose suit is outside the seven valid suits raises no
  error: the constructor returns the sentinel card with colour 'invalid', suit 'invalid',
  rank 100, the given active flag and locked False.
\<close>

theorem Card_init_invalid_sentinel:
  assumes "col \<notin> Some ` set validColours \<or> su \<notin> Some ` set validSuits"
  shows "Card_init i col su act =
           Inr \<lparr>ident = i, colour = ''invalid'', suit = ''invalid'', rank = 100,
                active = act, locked = False\<rparr>"
  using assms by (auto simp: Card_init_def invalid_card_def split: option.splits)

theorem Card_init_invalid_sentinel_witness:
  "None \<notin> Some ` set validColours \<and>
   Card_init 0 None None True =
     Inr \<lparr>ident = 0, colour = ''invalid'', suit = ''invalid'', rank = 100,
          active = True, locked = False\<rparr>"
  using Card_init_invalid_sentinel[of None None 0 True] by auto

text \<open>
  C9 as stated fails: the colour 'purple' is outside the valid colours, and the
  constructor returns a card (the sentinel of rank 100), not an error.
\<close>

theorem Card_init_fail_fast_counterexample:
  "''purple'' \<notin> set validColours \<and>
   \<not> isl (Card_init 0 (Some ''purple'') (Some ''kuin'') False) \<and>
   Card_init 0 (Some ''purple'') (Some ''kuin'') False =
     Inr \<lparr>ident = 0, colour = ''invalid'', suit = ''invalid'', rank = 100,
          active = False, locked = False\<rparr>"
  by (simp add: Card_init_def invalid_card_def validColours_def)

subsection \<open>Deck\<close>

lemma pop_cards_eq:
  "k \<le> length cs \<Longrightarrow>
   pop_cards k cs acc = Inr (acc @ rev (drop (length cs - k) cs), take (length cs - k) cs)"
proof (induction k arbitrary: cs acc)
  case 0
  then show ?case by simp
next
  case (Suc k)
  then have ne: "cs \<noteq> []" by auto
  then obtain ys y where cs: "cs = ys @ [y]" by (metis rev_exhaust)
  with Suc.prems have k: "k \<le> length ys" by simp
  show ?case using Suc.IH[OF k] cs k by (simp add: Suc_diff_le)
qed

lemma populate_copies_len:
  "\<exists>acc'. populate_copies k su col i acc = Inr (acc', i + k) \<and> length acc' = length acc + k"
proof (induction k arbitrary: i acc)
  case 0
  then show ?case by simp
next
  case (Suc k)
  obtain c where c: "Card_init i (Some col) (Some su) False = Inr c"
    using Card_init_total by blast
  from Suc.IH[of "Suc i" "acc @ [c]"] c show ?case by auto
qed

lemma populate_colours_len:
  "\<exists>acc'. populate_colours cols n su i acc = Inr (acc', i + n * length cols)
        \<and> length acc' = length acc + n * length cols"
proof (induction cols arbitrary: i acc)
  case Nil
  then show ?case by simp
next
  case (Cons col cols)
  obtain a1 where a1: "populate_copies n su col i acc = Inr (a1, i + n)" "length a1 = length acc + n"
    using populate_copies_len by blast
  from Cons.IH[of "i + n" a1] a1 show ?case by (auto simp: algebra_simps)
qed

lemma populate_suits_len:
  "\<exists>acc'. populate_suits sus n i acc = Inr (acc', i + n * length validColours * length sus)
        \<and> length acc' = length acc + n * length validColours * length sus"
proof (induction sus arbitrary: i acc)
  case Nil
  then show ?case by simp
next
  case (Cons su sus)
  obtain a1 where a1: "populate_colours validColours n su i acc = Inr (a1, i + n * length validColours)"
      "length a1 = length acc + n * length validColours"
    using populate_colours_len by blast
  from Cons.IH[of "i + n * length validColours" a1] a1 show ?case by (auto simp: algebra_simps)
qed

lemma populate_deck_len:
  "\<exists>cs i'. populate_deck nd i = Inr (cs, i') \<and> length cs = nat (4 * nd) * 4 * 7"
proof -
  obtain c where c: "Card_init i None None False = Inr c" using Card_init_total by blast
  from populate_suits_len[of validSuits "nat (4 * nd)" "Suc i" "[]"]
  obtain cs where "populate_suits validSuits (nat (4 * nd)) (Suc i) [] =
      Inr (cs, Suc i + nat (4 * nd) * length validColours * length validSuits)"
     "length cs = nat (4 * nd) * length validColours * length validSuits" by auto
  with c show ?thesis by (simp add: populate_deck_def validColours_def validSuits_def)
qed

lemma mset_shuffle_pick: "mset (fst (shuffle_pick n t xs)) = mset xs"
proof (induction n arbitrary: t xs)
  case 0
  then show ?case by simp
next
  case (Suc n)
  show ?case
  proof (cases "xs = []")
    case True
    then show ?thesis by simp
  next
    case False
    obtain r t' where rt: "next_rand t = (r, t')" by (cases "next_rand t")
    define k where "k = r mod length xs"
    have k: "k < length xs" using False by (simp add: k_def)
    obtain ys t'' where ys: "shuffle_pick n t' (take k xs @ drop (Suc k) xs) = (ys, t'')"
      by (cases "shuffle_pick n t' (take k xs @ drop (Suc k) xs)")
    from Suc.IH[of t' "take k xs @ drop (Suc k) xs"] ys
    have "mset ys = mset (take k xs @ drop (Suc k) xs)" by simp
    moreover have "mset xs = add_mset (xs ! k) (mset (take k xs @ drop (Suc k) xs))"
      using k by (metis append_take_drop_id Cons_nth_drop_Suc mset.simps(2) mset_append union_mset_add_mset_right)
    ultimately show ?thesis using False rt ys by (simp add: k_def)
  qed
qed

lemma mset_np_shuffle: "mset (fst (np_shuffle t xs)) = mset xs"
  by (simp add: np_shuffle_def mset_shuffle_pick)

lemma length_np_shuffle: "length (fst (np_shuffle t xs)) = length xs"
  using mset_np_shuffle[of t xs] by (metis size_mset)

lemma cards_shuffle_deck: "mset (cards (fst (shuffle_deck t d))) = mset (cards d)"
  using mset_np_shuffle[of t "cards d"] by (auto simp: shuffle_deck_def split: prod.splits)

lemma length_shuffle_deck: "length (cards (fst (shuffle_deck t d))) = length (cards d)"
  using cards_shuffle_deck[of t d] by (metis size_mset)

lemma constructed_size_eq: "constructed_size n i t = Inr (4 * 7 * 4 * (if construct_ndecks n < 0 then 0 else construct_ndecks n))"
proof -
  obtain cs i' where p: "populate_deck (construct_ndecks n) i = Inr (cs, i')"
     "length cs = nat (4 * construct_ndecks n) * 4 * 7" using populate_deck_len by blast
  define d where "d = \<lparr>ndecks = construct_ndecks n, cards = cs\<rparr>"
  obtain d' t' where sh: "shuffle_deck t d = (d', t')" by (cases "shuffle_deck t d")
  have "length (cards d') = length cs" using length_shuffle_deck[of t d] sh by (simp add: d_def)
  with p sh show ?thesis
    by (auto simp: constructed_size_def construct_deck_def Deck_init_def d_def)
qed


text \<open>
  C10. For every deck and every ncards \<open>\<ge> 1\<close>, \<^verbatim>\<open>draw_cards(ncards)\<close> returns None and
  leaves the deck unchanged whenever the deck holds ncards or fewer cards (also when it
  holds exactly ncards), and otherwise returns exactly the last ncards cards of the
  deck, in the order they are popped, and removes them from the deck.
\<close>

theorem draw_cards_spec:
  assumes "1 \<le> ncards"
  shows "(int (length (cards d)) \<le> ncards \<longrightarrow> draw_cards ncards False t d = Inr (None, d, t)) \<and>
         (ncards < int (length (cards d)) \<longrightarrow>
            draw_cards ncards False t d =
              Inr (Some (rev (drop (length (cards d) - nat ncards) (cards d))),
                   d\<lparr>cards := take (length (cards d) - nat ncards) (cards d)\<rparr>, t))"
  using assms by (auto simp: draw_cards_def pop_cards_eq)

theorem draw_cards_spec_witness:
  "(1::int) \<le> 2 \<and>
   draw_cards 2 False [] \<lparr>ndecks = 1, cards = [invalid_card 1 False, invalid_card 2 False]\<rparr>
     = Inr (None, \<lparr>ndecks = 1, cards = [invalid_card 1 False, invalid_card 2 False]\<rparr>, []) \<and>
   draw_cards 2 False []
       \<lparr>ndecks = 1, cards = [invalid_card 1 False, invalid_card 2 False, invalid_card 3 False]\<rparr>
     = Inr (Some [invalid_card 3 False, invalid_card 2 False],
            \<lparr>ndecks = 1, cards = [invalid_card 1 False]\<rparr>, [])"
  using draw_cards_spec[of 2 "\<lparr>ndecks = 1, cards = [invalid_card 1 False, invalid_card 2 False]\<rparr>" "[]"]
        draw_cards_spec[of 2 "\<lparr>ndecks = 1, cards = [invalid_card 1 False, invalid_card 2 False,
                                 invalid_card 3 False]\<rparr>" "[]"]
  by simp

text \<open>
  C8 (as the code has it). For every player count n (with \<open>n + 1 \<le> 2 ^ 53\<close>, where the
  floating-point quotient is exact), the constructed deck holds
  4 \<times> 7 suits \<times> 4 colours \<times> ndecks cards, where ndecks = 1 when n < 2, ndecks = 2 when
  2 \<le> n \<le> 4, and ndecks = floor((n+1)/2) when n > 4.
\<close>

theorem construct_deck_size:
  assumes "n + 1 \<le> 2 ^ 53"
  shows "constructed_size n i t =
           Inr (4 * 7 * 4 * (if n < 2 then 1 else if n \<le> 4 then 2
                             else \<lfloor>real_of_int (n + 1) / 2\<rfloor>))"
proof -
  have "\<lfloor>real_of_int (n + 1) / 2\<rfloor> = (n + 1) div 2"
    using floor_divide_of_int_eq[of "n + 1" 2] by simp
  then show ?thesis by (simp add: constructed_size_eq construct_ndecks_def)
qed

theorem construct_deck_size_witness:
  "(7::int) + 1 \<le> 2 ^ 53 \<and> constructed_size 7 0 [] = Inr 448"
  using construct_deck_size[of 7 0 "[]"] by simp

text \<open>
  C8 as stated fails for six players: the code builds floor(7/2) = 3 decks, 336 cards,
  where the claim's ceil(7/2) = 4 decks would be 448 cards.
\<close>

theorem construct_deck_ceil_counterexample:
  "constructed_size 6 0 [] = Inr 336 \<and>
   4 * 7 * 4 * \<lceil>real_of_int (6 + 1) / 2\<rceil> = (448::int)"
  by (simp add: constructed_size_eq construct_ndecks_def)

subsection \<open>Set scoring\<close>

lemma remdups_one_iff:
  "(length (remdups (map f (c # cs))) = 1) = list_all (\<lambda>i. f i = f c) (c # cs)"
proof -
  have "length (remdups (map f (c # cs))) = card (f ` set (c # cs))"
    by (metis length_remdups_card_conv set_map)
  moreover have "(card (f ` set (c # cs)) = 1) = (\<forall>i \<in> set (c # cs). f i = f c)"
  proof
    assume "card (f ` set (c # cs)) = 1"
    then obtain x where x: "f ` set (c # cs) = {x}" by (auto simp: card_1_singleton_iff)
    then have "f c = x" by auto
    with x show "\<forall>i \<in> set (c # cs). f i = f c" by blast
  next
    assume "\<forall>i \<in> set (c # cs). f i = f c"
    then have eq: "f ` set (c # cs) = {f c}" by auto
    show "card (f ` set (c # cs)) = 1" unfolding eq by simp
  qed
  ultimately show ?thesis by (simp add: list_all_iff)
qed

lemma sort_eq_iff_mset: "(sort xs = sort ys) = (mset xs = mset (ys :: 'a :: linorder list))"
proof
  assume "sort xs = sort ys"
  then have "mset (sort xs) = mset (sort ys)" by simp
  then show "mset xs = mset ys" by simp
next
  assume "mset xs = mset ys"
  then show "sort xs = sort ys"
    by (metis properties_for_sort sorted_sort mset_sort)
qed

lemma cards_unique_colours_iff:
  "cards_unique_colours cs =
     (\<forall>c \<in> set cs. \<forall>d \<in> set cs. ident c \<noteq> ident d \<longrightarrow> colour c \<noteq> colour d)"
  unfolding cards_unique_colours_def list_all_iff by metis

lemma all_suit_iff:
  "(list_all (\<lambda>i. suit i = suit c) (c # cs) \<and> suit c = su) = (set (map suit (c # cs)) \<subseteq> {su})"
  by (auto simp: list_all_iff)

lemma mset3_length: "mset xs = mset [a, b, c] \<Longrightarrow> length xs = 3"
  by (metis length_Cons list.size(3) numeral_3_eq_3 size_mset)

lemma case_if_Some:
  "(case (if b then Some v else x) of None \<Rightarrow> g | Some w \<Rightarrow> f w) =
   (if b then f v else (case x of None \<Rightarrow> g | Some w \<Rightarrow> f w))"
  by simp

lemma Set_init_table:
  assumes "cs \<noteq> []"
  shows "Set_init cs =
           Inr \<lparr>scards = cs, melded = contains_active_card cs, invalid = snd (spec_score cs),
                same_colour = list_all (\<lambda>i. colour i = colour (hd cs)) cs,
                same_suit = list_all (\<lambda>i. suit i = suit (hd cs)) cs,
                unique_colours = cards_unique_colours cs, score = fst (spec_score cs)\<rparr>"
proof -
  from assms obtain c rest where cs: "cs = c # rest" by (cases cs) auto
  define SS where "SS = list_all (\<lambda>i. suit i = suit c) cs"
  define SC where "SC = list_all (\<lambda>i. colour i = colour c) cs"
  define UC where "UC = cards_unique_colours cs"
  define M where "M = list_ex active cs"
  define L where "L = length cs"
  define A where "A = (mset (map suit cs) = mset [''kuin'', ''tse'', ''xiong''])"
  define B where "B = (mset (map suit cs) = mset [''kee'', ''mah'', ''pau''])"
  have sc: "cards_same_colour cs = Inr SC" and ss: "cards_same_suit cs = Inr SS"
    by (simp_all add: cs SC_def SS_def)
  have r1: "(length (remdups (map suit cs)) = 1) = SS" "(length (remdups (map colour cs)) = 1) = SC"
    unfolding cs SS_def SC_def by (rule remdups_one_iff)+
  have ink: "spec_identical_non_kuin cs = (SS \<and> SC \<and> suit c \<noteq> ''kuin'')"
    unfolding spec_identical_non_kuin_def r1 by (auto simp: SS_def cs list_all_iff)
  have ucc: "spec_unique_colour_chut cs = (SS \<and> suit c = ''chut'' \<and> UC)"
    unfolding spec_unique_colour_chut_def cards_unique_colours_iff[symmetric] UC_def
    by (auto simp: SS_def cs list_all_iff)
  have scs: "\<And>sus. spec_same_colour_suits cs sus = (SC \<and> mset (map suit cs) = mset sus)"
    unfolding spec_same_colour_suits_def r1 by simp
  have one: "(L = 1 \<and> map suit cs = [''kuin'']) = (L = 1 \<and> suit c = ''kuin'')"
    unfolding cs L_def by auto
  have AL: "A \<Longrightarrow> L = 3" and BL: "B \<Longrightarrow> L = 3"
    unfolding A_def B_def L_def using mset3_length by (metis length_map)+
  have A3: "(L = 3 \<and> SC \<and> A) = (SC \<and> A)" and B3: "(L = 3 \<and> SC \<and> B) = (SC \<and> B)"
    using AL BL by blast+
  define R where "R =
         (if L = 4 \<and> SS \<and> SC \<and> suit c \<noteq> ''kuin'' then (if M then 6 else 8, False)
          else if L = 3 \<and> SS \<and> SC \<and> suit c \<noteq> ''kuin'' then (if M then 1 else 3, False)
          else if L = 2 \<and> SS \<and> SC \<and> suit c \<noteq> ''kuin'' then (0, False)
          else if L = 4 \<and> SS \<and> suit c = ''chut'' \<and> UC then (4, False)
          else if L = 3 \<and> SS \<and> suit c = ''chut'' \<and> UC then (1, False)
          else if SC \<and> A then (2, False)
          else if SC \<and> B then (1, False)
          else if L = 1 \<and> suit c = ''kuin'' then (1::int, False)
          else (- 1, True))"
  have es: "evaluate_score cs M SC SS UC = Inr R"
    unfolding evaluate_score_def cs[symmetric] sort_eq_iff_mset Let_def A_def[symmetric] B_def[symmetric]
      L_def[symmetric] R_def
    by (simp add: cs or_else_def)
  have sp: "spec_score cs = R"
    unfolding spec_score_def spec_score_table_def ink ucc scs A_def[symmetric] B_def[symmetric]
      L_def[symmetric] M_def[symmetric] A3 B3 R_def one spec_first_row.simps case_if_Some
      option.case
    by (rule refl)
  have hd: "hd cs = c" by (simp add: cs)
  show ?thesis
    unfolding Set_init_def Let_def sc ss contains_active_card_def M_def[symmetric] UC_def[symmetric]
      sp hd SS_def[symmetric] SC_def[symmetric]
    by (simp add: es case_prod_beta)
qed

text \<open>
  C3. For every non-empty list of cards (in particular of 1 to 4 cards), the Set built
  from it has exactly the score of the first matching row of the priority-ordered table
  (4 identical non-kuin: 6 if melded else 8; 3 identical non-kuin: 1 if melded else 3;
  2 identical non-kuin: 0; 4 unique-colour chut: 4; 3 unique-colour chut: 1; same-colour
  kuin, tse, xiong: 2; same-colour kee, mah, pau: 1; lone kuin: 1) and is not invalid;
  a composition that matches no row has the score -1 and is marked invalid.
\<close>

theorem Set_init_score_table:
  assumes "cs \<noteq> []"
  shows "\<exists>s. Set_init cs = Inr s \<and> scards s = cs \<and> (score s, invalid s) = spec_score cs"
  using Set_init_table[OF assms] by simp

theorem Set_init_score_table_witness:
  "[new_card 1 ''red'' ''chut'', new_card 2 ''yellow'' ''chut'', new_card 3 ''white'' ''chut'',
    new_card 4 ''green'' ''chut''] \<noteq> [] \<and>
   (\<exists>s. Set_init [new_card 1 ''red'' ''chut'', new_card 2 ''yellow'' ''chut'',
                   new_card 3 ''white'' ''chut'', new_card 4 ''green'' ''chut''] = Inr s \<and>
        (score s, invalid s) = (4, False))"
  using Set_init_score_table[of "[new_card 1 ''red'' ''chut'', new_card 2 ''yellow'' ''chut'',
    new_card 3 ''white'' ''chut'', new_card 4 ''green'' ''chut'']"]
  by (auto simp: new_card_def Card_init_def calculate_rank_def validSuits_def validColours_def
      spec_score_def spec_score_table_def spec_identical_non_kuin_def spec_unique_colour_chut_def
      spec_same_colour_suits_def)

subsection \<open>The hand evaluator: every tier preserves what commits preserve\<close>

declare tier1.simps [simp del] tier3.simps [simp del] tier6.simps [simp del]

lemma length_lock_cards [simp]: "length (lock_cards tc cs) = length cs"
  by (simp add: lock_cards_def)

lemma length_commit [simp]: "length (fst (commit idxs ts st)) = length (fst st)"
  by (simp add: commit_def)

lemma take_drop_nth:
  "i + k \<le> length cs \<Longrightarrow> take k (drop i cs) = map (\<lambda>j. cs ! j) [i..<i + k]"
  by (simp add: list_eq_iff_nth_eq)

lemma Set_init_ne:
  assumes "tc \<noteq> []"
  shows "\<exists>ts. Set_init tc = Inr ts \<and> scards ts = tc \<and> (score ts, invalid ts) = spec_score tc"
  using Set_init_table[OF assms] by simp

lemma for_loop_inv:
  assumes "\<And>x s. x \<in> set xs \<Longrightarrow> P s \<Longrightarrow> \<exists>s'. body x s = Inr s' \<and> P s'"
    and "P s"
  shows "\<exists>s'. for_loop xs body s = Inr s' \<and> P s'"
  using assms
proof (induction xs arbitrary: s)
  case Nil
  then show ?case by simp
next
  case (Cons x xs)
  from Cons.prems(1)[of x s] Cons.prems(2) obtain s1 where s1: "body x s = Inr s1" "P s1" by auto
  have "\<exists>s'. for_loop xs body s1 = Inr s' \<and> P s'"
    by (rule Cons.IH) (use Cons.prems(1) s1 in auto)
  with s1 show ?case by simp
qed

lemma commit_closedD:
  assumes "commit_closed P" "P st" "idxs \<noteq> []" "sorted_wrt (<) idxs"
    "\<forall>i \<in> set idxs. i < length (fst st)"
    "cards_not_locked (map (\<lambda>i. fst st ! i) idxs)"
    "Set_init (map (\<lambda>i. fst st ! i) idxs) = Inr ts"
    "score ts \<in> {8, 6, 4, 3, 2, 1, 0}"
  shows "P (commit idxs ts st)"
  using assms unfolding commit_closed_def by blast

text \<open>One test at increasing positions.\<close>

lemma try_set_closed:
  assumes cc: "commit_closed P" and P: "P st"
    and idxs: "idxs \<noteq> []" "sorted_wrt (<) idxs" "\<forall>i \<in> set idxs. i < length (fst st)"
    and ok: "\<And>r. ok r \<Longrightarrow> r \<in> {8, 6, 4, 3, 2, 1, 0}"
  shows "\<exists>b st'. try_set ok (map (\<lambda>i. fst st ! i) idxs) st = Inr (b, st') \<and> P st'
           \<and> length (fst st') = length (fst st)"
proof -
  let ?tc = "map (\<lambda>i. fst st ! i) idxs"
  have "?tc \<noteq> []" using idxs(1) by simp
  from Set_init_ne[OF this] obtain ts where ts: "Set_init ?tc = Inr ts" by blast
  show ?thesis
  proof (cases "ok (score ts) \<and> cards_not_locked ?tc")
    case True
    then have "P (commit idxs ts st)"
      using commit_closedD[OF cc P idxs _ ts] ok[of "score ts"] by blast
    then show ?thesis using True ts by (auto simp: try_set_def commit_def)
  next
    case False
    then show ?thesis using ts P by (cases st) (auto simp: try_set_def)
  qed
qed

lemma try_at_closed:
  assumes "commit_closed P" "P st \<and> length (fst st) = n"
    and "idxs \<noteq> []" "sorted_wrt (<) idxs" "\<forall>i \<in> set idxs. i < n"
    and "\<And>r. ok r \<Longrightarrow> r \<in> {8, 6, 4, 3, 2, 1, 0}"
  shows "\<exists>st'. try_at ok idxs st = Inr st' \<and> P st' \<and> length (fst st') = n"
proof -
  from try_set_closed[OF assms(1), of st idxs ok] assms(2-6)
  obtain b st' where "try_set ok (map (\<lambda>i. fst st ! i) idxs) st = Inr (b, st')" "P st'"
    "length (fst st') = length (fst st)" by blast
  then show ?thesis using assms(2) by (simp add: try_at_def)
qed

lemma tier1_closed:
  assumes cc: "commit_closed P"
  shows "P st \<Longrightarrow> \<exists>st'. tier1 i st = Inr st' \<and> P st'"
proof (induction i st rule: tier1.induct)
  case (1 i st)
  show ?case
  proof (cases "i + 4 \<le> length (fst st)")
    case False
    then show ?thesis using "1.prems" by (subst tier1.simps) simp
  next
    case True
    have td: "take 4 (drop i (fst st)) = map (\<lambda>j. fst st ! j) [i..<i + 4]"
      using True by (rule take_drop_nth)
    from try_set_closed[OF cc "1.prems", of "[i..<i + 4]" "\<lambda>r. r \<in> {8, 6}"] True
    obtain b st' where t: "try_set (\<lambda>r. r \<in> {8, 6}) (take 4 (drop i (fst st))) st = Inr (b, st')"
      and P': "P st'" unfolding td by auto
    from "1.IH"[OF True t refl P'] obtain st'' where
      "tier1 (if b then i + 3 + 1 else i + 1) st' = Inr st''" "P st''" by blast
    then show ?thesis using True t by (subst tier1.simps) simp
  qed
qed


lemma tier6_closed:
  assumes cc: "commit_closed P"
  shows "P st \<Longrightarrow> \<exists>st'. tier6 i st = Inr st' \<and> P st'"
proof (induction i st rule: tier6.induct)
  case (1 i st)
  show ?case
  proof (cases "i + 2 \<le> length (fst st)")
    case False
    then show ?thesis using "1.prems" by (subst tier6.simps) simp
  next
    case True
    have td: "take 2 (drop i (fst st)) = map (\<lambda>j. fst st ! j) [i..<i + 2]"
      using True by (rule take_drop_nth)
    from try_set_closed[OF cc "1.prems", of "[i..<i + 2]" "\<lambda>r. r = 0"] True
    obtain b st' where t: "try_set (\<lambda>r. r = 0) (take 2 (drop i (fst st))) st = Inr (b, st')"
      and P': "P st'" unfolding td by auto
    from "1.IH"[OF True t refl P'] obtain st'' where
      "tier6 (i + 1) st' = Inr st''" "P st''" by blast
    then show ?thesis using True t by (subst tier6.simps) simp
  qed
qed

lemma window_ne: "i + k \<le> length cs \<Longrightarrow> 0 < k \<Longrightarrow> take k (drop i cs) \<noteq> []"
  by auto

lemma same_suit_ne: "tc \<noteq> [] \<Longrightarrow> \<exists>b. cards_same_suit tc = Inr b"
  by (cases tc) auto

lemma same_colour_ne: "tc \<noteq> [] \<Longrightarrow> \<exists>b. cards_same_colour tc = Inr b"
  by (cases tc) auto

lemma tier3_closed:
  assumes cc: "commit_closed P"
  shows "P st \<Longrightarrow> \<exists>st'. tier3 i st = Inr st' \<and> P st'"
proof (induction i st rule: tier3.induct)
  case (1 i st)
  show ?case
  proof (cases "i + 3 \<le> length (fst st)")
    case False
    then show ?thesis using "1.prems" by (subst tier3.simps) simp
  next
    case True
    define tc where "tc = take 3 (drop i (fst st))"
    have ne: "tc \<noteq> []" unfolding tc_def using True by (intro window_ne) auto
    obtain ss where ss: "cards_same_suit tc = Inr ss" using same_suit_ne[OF ne] by blast
    obtain sc where sc: "cards_same_colour tc = Inr sc" using same_colour_ne[OF ne] by blast
    define both where "both = (ss \<and> sc)"
    have both: "(if ss then cards_same_colour tc else Inr False) = Inr both"
      by (simp add: both_def sc)
    show ?thesis
    proof (cases both)
      case False
      from "1.IH"(2)[OF True tc_def ss both False "1.prems"]
      obtain st'' where "tier3 (i + 1) st = Inr st''" "P st''" by blast
      then show ?thesis using True ss both False
        by (subst tier3.simps) (simp add: tc_def[symmetric])
    next
      case b: True
      have td: "tc = map (\<lambda>j. fst st ! j) [i..<i + 3]"
        unfolding tc_def using True by (rule take_drop_nth)
      from try_set_closed[OF cc "1.prems", of "[i..<i + 3]" "\<lambda>r. r \<in> {3, 1}"] True
      obtain bb st' where t: "try_set (\<lambda>r. r \<in> {3, 1}) tc st = Inr (bb, st')"
        and P': "P st'" unfolding td by auto
      from "1.IH"(1)[OF True tc_def ss both b t refl P'] obtain st'' where
        "tier3 (if bb then i + 2 + 1 else i + 1) st' = Inr st''" "P st''" by blast
      then show ?thesis using True ss both b t
        by (subst tier3.simps) (simp add: tc_def[symmetric])
    qed
  qed
qed

lemma tier4_closed:
  assumes cc: "commit_closed P" and P: "P st"
  shows "\<exists>st'. tier4 st = Inr st' \<and> P st'"
proof -
  define n where "n = length (fst st)"
  define Q where "Q = (\<lambda>s. P s \<and> length (fst s) = n)"
  have Q0: "Q st" using P by (simp add: Q_def n_def)
  have l0: "\<exists>s'. try_at (\<lambda>r. r \<in> {2, 1}) [i, j, k] s = Inr s' \<and> Q s'"
    if "i < j" "j < k" "k < n" "Q s" for i j k s
    using that unfolding Q_def
    using try_at_closed[OF cc, of s n "[i, j, k]" "\<lambda>r. r \<in> {2, 1}"] by auto
  have l1: "\<exists>s'. for_loop [j + 1..<n] (\<lambda>k. try_at (\<lambda>r. r \<in> {2, 1}) [i, j, k]) s = Inr s' \<and> Q s'"
    if "i < j" "Q s" for i j s
    by (rule for_loop_inv[where P = Q]) (use that l0 in auto)
  have l2: "\<exists>s'. for_loop [i + 1..<n] (\<lambda>j.
          for_loop [j + 1..<n] (\<lambda>k. try_at (\<lambda>r. r \<in> {2, 1}) [i, j, k])) s = Inr s' \<and> Q s'"
    if "Q s" for i s
    by (rule for_loop_inv[where P = Q]) (use that l1 in auto)
  have "\<exists>s'. for_loop [0..<n] (\<lambda>i.
        for_loop [i + 1..<n] (\<lambda>j.
          for_loop [j + 1..<n] (\<lambda>k.
            try_at (\<lambda>r. r \<in> {2, 1}) [i, j, k]))) st = Inr s' \<and> Q s'"
    by (rule for_loop_inv[where P = Q]) (use Q0 l2 in auto)
  then show ?thesis by (auto simp: tier4_def Let_def n_def[symmetric] Q_def)
qed

lemma tier2_closed:
  assumes cc: "commit_closed P" and P: "P st"
  shows "\<exists>st'. tier2 st = Inr st' \<and> P st'"
proof -
  define n where "n = length (fst st)"
  define Q where "Q = (\<lambda>s. P s \<and> length (fst s) = n)"
  have Q0: "Q st" using P by (simp add: Q_def n_def)
  have l0: "\<exists>s'. try_at (\<lambda>r. r = 4) [i, j, k, l] s = Inr s' \<and> Q s'"
    if "i < j" "j < k" "k < l" "l < n" "Q s" for i j k l s
    using that unfolding Q_def
    using try_at_closed[OF cc, of s n "[i, j, k, l]" "\<lambda>r. r = 4"] by auto
  have l1: "\<exists>s'. for_loop [k + 1..<n] (\<lambda>l. try_at (\<lambda>r. r = 4) [i, j, k, l]) s = Inr s' \<and> Q s'"
    if "i < j" "j < k" "Q s" for i j k s
    by (rule for_loop_inv[where P = Q]) (use that l0 in auto)
  have l2: "\<exists>s'. for_loop [j + 1..<n] (\<lambda>k.
          for_loop [k + 1..<n] (\<lambda>l. try_at (\<lambda>r. r = 4) [i, j, k, l])) s = Inr s' \<and> Q s'"
    if "i < j" "Q s" for i j s
    by (rule for_loop_inv[where P = Q]) (use that l1 in auto)
  have l3: "\<exists>s'. for_loop [i + 1..<n] (\<lambda>j.
          for_loop [j + 1..<n] (\<lambda>k.
            for_loop [k + 1..<n] (\<lambda>l. try_at (\<lambda>r. r = 4) [i, j, k, l]))) s = Inr s' \<and> Q s'"
    if "Q s" for i s
    by (rule for_loop_inv[where P = Q]) (use that l2 in auto)
  have "\<exists>s'. for_loop [0..<n] (\<lambda>i s.
        if suit (fst s ! i) \<notin> set valid_multicolour_suits then Inr s
        else for_loop [i + 1..<n] (\<lambda>j.
               for_loop [j + 1..<n] (\<lambda>k.
                 for_loop [k + 1..<n] (\<lambda>l.
                   try_at (\<lambda>r. r = 4) [i, j, k, l]))) s) st = Inr s' \<and> Q s'"
    by (rule for_loop_inv[where P = Q]) (use Q0 l3 in auto)
  then show ?thesis by (auto simp: tier2_def Let_def n_def[symmetric] Q_def)
qed

lemma lone_kuin_score:
  assumes "suit c = ''kuin''"
  shows "\<exists>ts. Set_init [c] = Inr ts \<and> score ts = 1 \<and> scards ts = [c]"
proof -
  have "spec_score [c] = (1, False)"
    using assms by (simp add: spec_score_def spec_score_table_def spec_identical_non_kuin_def
        spec_unique_colour_chut_def spec_same_colour_suits_def)
  then show ?thesis using Set_init_ne[of "[c]"] by auto
qed

lemma tier5_closed:
  assumes cc: "commit_closed P" and P: "P st"
  shows "\<exists>st'. tier5 st = Inr st' \<and> P st'"
proof -
  define n where "n = length (fst st)"
  define Q where "Q = (\<lambda>s. P s \<and> length (fst s) = n)"
  have Q0: "Q st" using P by (simp add: Q_def n_def)
  have "\<exists>s'. for_loop [0..<n] (\<lambda>p s.
       (let c = fst s ! p in
        if suit c = ''kuin'' \<and> \<not> locked c then
          (case Set_init [c] of
             Inl e \<Rightarrow> Inl e
           | Inr ts \<Rightarrow> Inr (lock_cards [c] (fst s), snd s @ [ts]))
        else Inr s)) st = Inr s' \<and> Q s'"
  proof (rule for_loop_inv[where P = Q, OF _ Q0])
    fix p s
    assume p: "p \<in> set [0..<n]" and Qs: "Q s"
    define c where "c = fst s ! p"
    show "\<exists>s'. (let c = fst s ! p in
        if suit c = ''kuin'' \<and> \<not> locked c then
          (case Set_init [c] of
             Inl e \<Rightarrow> Inl e
           | Inr ts \<Rightarrow> Inr (lock_cards [c] (fst s), snd s @ [ts]))
        else Inr s) = Inr s' \<and> Q s'"
    proof (cases "suit c = ''kuin'' \<and> \<not> locked c")
      case False
      then have "(let c = fst s ! p in
        if suit c = ''kuin'' \<and> \<not> locked c then
          (case Set_init [c] of
             Inl e \<Rightarrow> Inl e
           | Inr ts \<Rightarrow> Inr (lock_cards [c] (fst s), snd s @ [ts]))
        else Inr s) = Inr s" by (auto simp: c_def Let_def)
      then show ?thesis using Qs by blast
    next
      case True
      from lone_kuin_score[of c] True obtain ts where ts: "Set_init [c] = Inr ts" "score ts = 1"
        by blast
      have "P (commit [p] ts s)"
        by (rule commit_closedD[OF cc])
           (use Qs p ts True in \<open>auto simp: cards_not_locked_def Q_def c_def\<close>)
      then have "Q (lock_cards [c] (fst s), snd s @ [ts])"
        using Qs by (simp add: Q_def commit_def c_def)
      then show ?thesis using True ts by (simp add: c_def[symmetric] Let_def)
    qed
  qed
  then show ?thesis by (auto simp: tier5_def n_def[symmetric] Q_def)
qed

text \<open>The evaluator as a whole.\<close>

lemma evaluate_hand_closed:
  assumes cc: "commit_closed P" and P: "P (sort_key rank h, [])"
  shows "\<exists>cs fs. P (cs, fs) \<and>
           evaluate_hand h =
             Inr \<lparr>found_sets = fs, res_hand_score = sum_list (map score fs),
                  res_lang_pai = filter (\<lambda>c. \<not> locked c) cs,
                  hand_after = map (\<lambda>c. c\<lparr>locked := False\<rparr>) cs\<rparr>"
proof -
  from tier1_closed[OF cc P] obtain s1 where s1: "tier1 0 (sort_key rank h, []) = Inr s1" "P s1" by blast
  from tier2_closed[OF cc s1(2)] obtain s2 where s2: "tier2 s1 = Inr s2" "P s2" by blast
  from tier3_closed[OF cc s2(2)] obtain s3 where s3: "tier3 0 s2 = Inr s3" "P s3" by blast
  from tier4_closed[OF cc s3(2)] obtain s4 where s4: "tier4 s3 = Inr s4" "P s4" by blast
  from tier5_closed[OF cc s4(2)] obtain s5 where s5: "tier5 s4 = Inr s5" "P s5" by blast
  from tier6_closed[OF cc s5(2)] obtain s6 where s6: "tier6 0 s5 = Inr s6" "P s6" by blast
  obtain cs fs where cf: "s6 = (cs, fs)" by (cases s6)
  show ?thesis
    by (intro exI[of _ cs] exI[of _ fs])
       (use s1 s2 s3 s4 s5 s6 cf in \<open>simp add: evaluate_hand_def sort_cards_def Let_def\<close>)
qed

subsection \<open>The hand evaluator: effect on its argument, repeated evaluation\<close>

lemma unlock_lock_cards [simp]: "map unlock (lock_cards tc cs) = map unlock cs"
  by (simp add: lock_cards_def unlock_def lock_def)

lemma ident_unlock [simp]: "ident (unlock c) = ident c"
  by (simp add: unlock_def)

lemma unlock_id: "\<not> locked c \<Longrightarrow> unlock c = c"
  by (simp add: unlock_def)

lemma locked_unlock [simp]: "\<not> locked (unlock c)"
  by (simp add: unlock_def)

lemma list_inv_closed: "commit_closed (list_inv u)"
  unfolding commit_closed_def
proof (intro allI impI)
  fix st idxs ts
  assume inv: "list_inv u st" and ne: "idxs \<noteq> []"
    and nl: "cards_not_locked (map (\<lambda>i. fst st ! i) idxs)"
    and ts: "Set_init (map (\<lambda>i. fst st ! i) idxs) = Inr ts"
  have "map (\<lambda>i. fst st ! i) idxs \<noteq> []" using ne by simp
  from Set_init_ne[OF this] ts have "scards ts = map (\<lambda>i. fst st ! i) idxs" by auto
  with inv nl show "list_inv u (commit idxs ts st)"
    by (simp add: list_inv_def commit_def)
qed

lemma sort_cards_suit: "sort_cards h ''suit'' = Inr (sort_key rank h, sort_key rank h)"
  by (simp add: sort_cards_def Let_def)

lemma evaluate_hand_sorted: "evaluate_hand (sort_key rank h) = evaluate_hand h"
proof -
  have "sort_key rank (sort_key rank h) = sort_key rank h"
    by (rule sort_key_id_if_sorted) simp
  then show ?thesis by (simp add: evaluate_hand_def sort_cards_suit)
qed

lemma evaluate_hand_total:
  "\<exists>r. evaluate_hand h = Inr r \<and> hand_after r = map unlock (sort_key rank h) \<and>
       (\<forall>t \<in> set (found_sets r). cards_not_locked (scards t)) \<and>
       cards_not_locked (res_lang_pai r) \<and> cards_not_locked (hand_after r)"
proof -
  have "list_inv (map unlock (sort_key rank h)) (sort_key rank h, [])"
    by (simp add: list_inv_def)
  from evaluate_hand_closed[OF list_inv_closed this]
  obtain cs fs where inv: "list_inv (map unlock (sort_key rank h)) (cs, fs)"
    and ev: "evaluate_hand h =
             Inr \<lparr>found_sets = fs, res_hand_score = sum_list (map score fs),
                  res_lang_pai = filter (\<lambda>c. \<not> locked c) cs,
                  hand_after = map (\<lambda>c. c\<lparr>locked := False\<rparr>) cs\<rparr>" by blast
  have "map (\<lambda>c. c\<lparr>locked := False\<rparr>) cs = map unlock cs" by (simp add: unlock_def)
  with inv ev show ?thesis
    by (auto simp: list_inv_def cards_not_locked_def list_all_iff)
qed

text \<open>
  C4 (as the code has it). For every list of cards, \<^verbatim>\<open>evaluate_hand\<close> returns, with every
  card of its argument, of the found sets and of the lang pai unlocked. Its persistent
  effect on its argument is that the list is left sorted by rank (the stable sort in
  place of \<^verbatim>\<open>sort_cards\<close>) with every lock cleared. Evaluating again a hand whose cards were
  unlocked, as the first evaluation left it, yields the identical found sets, hand score
  and lang pai, and leaves the list as it is.
\<close>

theorem evaluate_hand_effect:
  "\<exists>r. evaluate_hand h = Inr r \<and>
       hand_after r = map unlock (sort_key rank h) \<and>
       (\<forall>t \<in> set (found_sets r). cards_not_locked (scards t)) \<and>
       cards_not_locked (res_lang_pai r) \<and> cards_not_locked (hand_after r) \<and>
       (cards_not_locked h \<longrightarrow> evaluate_hand (hand_after r) = Inr r)"
proof -
  from evaluate_hand_total[of h] obtain r where r: "evaluate_hand h = Inr r"
    "hand_after r = map unlock (sort_key rank h)"
    "\<forall>t \<in> set (found_sets r). cards_not_locked (scards t)"
    "cards_not_locked (res_lang_pai r)" "cards_not_locked (hand_after r)" by blast
  have "evaluate_hand (hand_after r) = Inr r" if "cards_not_locked h"
  proof -
    have "map unlock (sort_key rank h) = sort_key rank h"
      using that by (intro map_idI unlock_id) (auto simp: cards_not_locked_def list_all_iff)
    then show ?thesis using r(1,2) by (simp add: evaluate_hand_sorted)
  qed
  with r show ?thesis by blast
qed

theorem evaluate_hand_effect_witness:
  "cards_not_locked [new_card 2 ''green'' ''chut'', new_card 1 ''red'' ''kuin''] \<and>
   (\<exists>r. evaluate_hand [new_card 2 ''green'' ''chut'', new_card 1 ''red'' ''kuin''] = Inr r \<and>
        hand_after r = [new_card 1 ''red'' ''kuin'', new_card 2 ''green'' ''chut''] \<and>
        evaluate_hand (hand_after r) = Inr r)"
proof -
  have nl: "cards_not_locked [new_card 2 ''green'' ''chut'', new_card 1 ''red'' ''kuin'']"
    by code_simp
  have so: "map unlock (sort_key rank [new_card 2 ''green'' ''chut'', new_card 1 ''red'' ''kuin''])
      = [new_card 1 ''red'' ''kuin'', new_card 2 ''green'' ''chut'']"
    by code_simp
  from evaluate_hand_effect[of "[new_card 2 ''green'' ''chut'', new_card 1 ''red'' ''kuin'']"]
  show ?thesis unfolding so using nl by blast
qed

text \<open>
  C4 as stated fails: the evaluator modifies its argument. A hand that holds a green
  chut before a red kuin is left with the red kuin before the green chut.
\<close>

theorem evaluate_hand_reorders_counterexample:
  "map_sum id hand_after
     (evaluate_hand [new_card 2 ''green'' ''chut'', new_card 1 ''red'' ''kuin''])
   = Inr [new_card 1 ''red'' ''kuin'', new_card 2 ''green'' ''chut''] \<and>
   [new_card 1 ''red'' ''kuin'', new_card 2 ''green'' ''chut'']
     \<noteq> [new_card 2 ''green'' ''chut'', new_card 1 ''red'' ''kuin'']"
  by code_simp

subsection \<open>The hand evaluator: the found sets and the lang pai partition the hand\<close>

lemma ident_lock_cards [simp]: "map ident (lock_cards tc cs) = map ident cs"
  by (simp add: lock_cards_def lock_def)

lemma map_ident_unlock: "map unlock cs = u \<Longrightarrow> map ident cs = map ident u"
  by (induction cs arbitrary: u) auto

lemma set_unlock_sub: "map unlock cs = u \<Longrightarrow> c \<in> set cs \<Longrightarrow> \<not> locked c \<Longrightarrow> c \<in> set u"
  using unlock_id[of c] by (metis image_eqI set_map)

lemma first_row_ne: "\<forall>(b, v) \<in> set rows. v \<noteq> - 1 \<Longrightarrow> spec_first_row rows \<noteq> Some (- 1)"
  by (induction rows) (auto split: if_splits)

lemma spec_score_invalid: "snd (spec_score cs) = (fst (spec_score cs) = - 1)"
proof -
  have "spec_first_row (spec_score_table cs) \<noteq> Some (- 1)"
    by (rule first_row_ne) (simp add: spec_score_table_def)
  then show ?thesis by (cases "spec_first_row (spec_score_table cs)") (auto simp: spec_score_def)
qed

lemma locked_idents_lock_cards:
  assumes "set tc \<subseteq> set cs"
  shows "ident ` {c \<in> set (lock_cards tc cs). locked c}
           = ident ` set tc \<union> ident ` {c \<in> set cs. locked c}"
proof (intro set_eqI iffI)
  fix x assume "x \<in> ident ` {c \<in> set (lock_cards tc cs). locked c}"
  then obtain c where c: "c \<in> set cs" 
     "locked (if ident c \<in> ident ` set tc then lock c else c)"
     "x = ident (if ident c \<in> ident ` set tc then lock c else c)"
    by (auto simp: lock_cards_def)
  show "x \<in> ident ` set tc \<union> ident ` {c \<in> set cs. locked c}"
  proof (cases "ident c \<in> ident ` set tc")
    case True
    then show ?thesis using c by (simp add: lock_def)
  next
    case False
    then show ?thesis using c by auto
  qed
next
  fix x assume x: "x \<in> ident ` set tc \<union> ident ` {c \<in> set cs. locked c}"
  then obtain c where c: "c \<in> set cs" "x = ident c" "ident c \<in> ident ` set tc \<or> locked c"
    using assms by auto
  let ?c' = "if ident c \<in> ident ` set tc then lock c else c"
  have "?c' \<in> set (lock_cards tc cs)" using c(1) by (auto simp: lock_cards_def)
  moreover have "locked ?c'" using c(3) by (auto simp: lock_def)
  moreover have "ident ?c' = x" using c(2) by (simp add: lock_def)
  ultimately show "x \<in> ident ` {c \<in> set (lock_cards tc cs). locked c}" by blast
qed

lemma distinct_map_nth:
  assumes "distinct xs" "sorted_wrt (<) idxs" "\<forall>i \<in> set idxs. i < length xs"
  shows "distinct (map (\<lambda>i. xs ! i) idxs)"
proof -
  have "distinct idxs" using assms(2) strict_sorted_iff by blast
  moreover have "inj_on (\<lambda>i. xs ! i) (set idxs)"
    using assms(1,3) by (auto simp: inj_on_def nth_eq_iff_index_eq)
  ultimately show ?thesis by (simp add: distinct_map)
qed

lemma part_inv_closed: "commit_closed (part_inv u)"
  unfolding commit_closed_def
proof (intro allI impI)
  fix st idxs ts
  assume inv: "part_inv u st" and ne: "idxs \<noteq> []" and so: "sorted_wrt (<) idxs"
    and lt: "\<forall>i \<in> set idxs. i < length (fst st)"
    and nl: "cards_not_locked (map (\<lambda>i. fst st ! i) idxs)"
    and ts: "Set_init (map (\<lambda>i. fst st ! i) idxs) = Inr ts"
    and sc: "score ts \<in> {8, 6, 4, 3, 2, 1, 0}"
  define cs where "cs = fst st"
  define fs where "fs = snd st"
  define tc where "tc = map (\<lambda>i. cs ! i) idxs"
  have tcne: "tc \<noteq> []" using ne by (simp add: tc_def)
  from Set_init_ne[OF tcne] ts have sts: "scards ts = tc" "(score ts, invalid ts) = spec_score tc"
    by (auto simp: tc_def cs_def)
  have "invalid ts = (score ts = - 1)"
    using sts(2) spec_score_invalid[of tc] by (metis fst_conv snd_conv)
  then have ninv: "\<not> invalid ts" using sc by auto
  from inv have u: "map unlock cs = u" and du: "distinct (map ident u)"
    and df: "distinct (map ident (found_cards fs))"
    and lk: "ident ` set (found_cards fs) = ident ` {c \<in> set cs. locked c}"
    and sub: "set (found_cards fs) \<subseteq> set u"
    and scs: "\<forall>t \<in> set fs. score t \<in> {8, 6, 4, 3, 2, 1, 0} \<and> \<not> invalid t"
    by (simp_all add: part_inv_def cs_def fs_def)
  have idcs: "map ident cs = map ident u" using u by (rule map_ident_unlock)
  have dcs: "distinct (map ident cs)" using du idcs by simp
  have tcsub: "set tc \<subseteq> set cs" using lt by (auto simp: tc_def cs_def)
  have tcnl: "\<forall>c \<in> set tc. \<not> locked c"
    using nl by (simp add: cards_not_locked_def list_all_iff tc_def cs_def)
  have dtc: "distinct (map ident tc)"
  proof -
    have "map ident tc = map (\<lambda>i. map ident cs ! i) idxs"
      using lt by (simp add: tc_def cs_def)
    moreover have "distinct (map (\<lambda>i. map ident cs ! i) idxs)"
      by (rule distinct_map_nth) (use dcs so lt in \<open>simp_all add: cs_def\<close>)
    ultimately show ?thesis by simp
  qed
  have disj: "ident ` set (found_cards fs) \<inter> ident ` set tc = {}"
  proof (rule ccontr)
    assume "ident ` set (found_cards fs) \<inter> ident ` set tc \<noteq> {}"
    then obtain c d where c: "c \<in> set cs" "locked c" and d: "d \<in> set tc" and e: "ident c = ident d"
      unfolding lk by auto
    from d tcsub have "d \<in> set cs" by blast
    with c(1) e dcs have "c = d" by (meson distinct_map inj_onD)
    with c(2) d tcnl show False by blast
  qed
  have tcu: "set tc \<subseteq> set u"
    using tcsub tcnl set_unlock_sub[OF u] by blast
  have fc: "found_cards (fs @ [ts]) = found_cards fs @ tc"
    by (simp add: found_cards_def sts)
  have p1: "map unlock (lock_cards tc cs) = u" using u by simp
  have p3: "distinct (map ident (found_cards fs @ tc))"
    using df dtc disj by (simp add: image_Un)
  have p4: "ident ` set (found_cards fs @ tc) = ident ` {c \<in> set (lock_cards tc cs). locked c}"
    unfolding locked_idents_lock_cards[OF tcsub] using lk by (auto simp: image_Un)
  have p5: "set (found_cards fs @ tc) \<subseteq> set u" using sub tcu by simp
  have p6: "\<forall>t \<in> set (fs @ [ts]). score t \<in> {8, 6, 4, 3, 2, 1, 0} \<and> \<not> invalid t"
    using scs sc ninv by simp
  have "part_inv u (lock_cards tc cs, fs @ [ts])"
    unfolding part_inv_def fst_conv snd_conv fc
    using p1 du p3 p4 p5 p6 by blast
  then show "part_inv u (commit idxs ts st)"
    by (simp add: commit_def tc_def cs_def fs_def)
qed

lemma mset_eq_by_ident:
  assumes "distinct (map ident xs)" "distinct (map ident ys)"
    "ident ` set xs = ident ` set ys" "set xs \<subseteq> set u" "set ys \<subseteq> set u"
    "distinct (map ident u)"
  shows "mset xs = mset ys"
proof -
  have inj: "inj_on ident (set u)" using assms(6) by (simp add: distinct_map)
  have dx: "distinct xs" and dy: "distinct ys" using assms(1,2) by (auto simp: distinct_map)
  have "set xs = set ys"
  proof (intro set_eqI iffI)
    fix x assume x: "x \<in> set xs"
    then obtain y where y: "y \<in> set ys" "ident x = ident y" using assms(3) by (metis image_iff)
    with x assms(4,5) inj have "x = y" by (meson inj_onD subsetD)
    with y show "x \<in> set ys" by simp
  next
    fix y assume y: "y \<in> set ys"
    then obtain x where x: "x \<in> set xs" "ident y = ident x" using assms(3) by (metis image_iff)
    with y assms(4,5) inj have "y = x" by (meson inj_onD subsetD)
    with x show "y \<in> set xs" by simp
  qed
  then show ?thesis using dx dy by (simp add: set_eq_iff_mset_eq_distinct)
qed

lemma part_inv_partition:
  assumes inv: "part_inv u (cs, fs)"
  shows "distinct (map ident (found_cards fs @ filter (\<lambda>c. \<not> locked c) cs))"
    and "mset (found_cards fs @ filter (\<lambda>c. \<not> locked c) cs) = mset u"
proof -
  from inv have u: "map unlock cs = u" and du: "distinct (map ident u)"
    and df: "distinct (map ident (found_cards fs))"
    and lk: "ident ` set (found_cards fs) = ident ` {c \<in> set cs. locked c}"
    and sub: "set (found_cards fs) \<subseteq> set u"
    by (simp_all add: part_inv_def)
  have idcs: "map ident cs = map ident u" using u by (rule map_ident_unlock)
  have dcs: "distinct (map ident cs)" using du idcs by simp
  then have injcs: "inj_on ident (set cs)" by (simp add: distinct_map)
  let ?lp = "filter (\<lambda>c. \<not> locked c) cs"
  let ?lk = "filter locked cs"
  have dlp: "distinct (map ident ?lp)" using dcs by (simp add: distinct_map_filter)
  have "ident ` {c \<in> set cs. locked c} \<inter> ident ` set ?lp = {}"
    using injcs by (auto simp: inj_on_def)
  with df dlp lk show "distinct (map ident (found_cards fs @ ?lp))" by simp
  have ulk: "distinct (map ident (map unlock ?lk))"
    using dcs by (simp add: distinct_map_filter comp_def)
  have sulk: "set (map unlock ?lk) \<subseteq> set u" using u by auto
  have "ident ` set (found_cards fs) = ident ` set (map unlock ?lk)"
    unfolding lk by (auto simp: image_iff)
  from mset_eq_by_ident[OF df ulk this sub sulk du]
  have m1: "mset (found_cards fs) = mset (map unlock ?lk)" .
  have "map unlock ?lp = ?lp" by (intro map_idI unlock_id) simp
  then have m2: "mset ?lp = mset (map unlock ?lp)" by simp
  have "mset u = mset (map unlock cs)" using u by simp
  also have "\<dots> = mset (map unlock ?lk) + mset (map unlock ?lp)"
    by (simp only: mset_map mset_filter image_mset_union[symmetric] multiset_partition[symmetric])
  finally show "mset (found_cards fs @ ?lp) = mset u" using m1 m2 by simp
qed

lemma evaluate_hand_partition0:
  assumes "distinct (map ident h)" "cards_not_locked h"
  shows "\<exists>r. evaluate_hand h = Inr r \<and>
       distinct (map ident (found_cards (found_sets r) @ res_lang_pai r)) \<and>
       mset (found_cards (found_sets r) @ res_lang_pai r) = mset h \<and>
       (\<forall>t \<in> set (found_sets r). score t \<in> {8, 6, 4, 3, 2, 1, 0} \<and> \<not> invalid t)"
proof -
  let ?s = "sort_key rank h"
  have us: "map unlock ?s = ?s"
    using assms(2) by (intro map_idI unlock_id) (auto simp: cards_not_locked_def list_all_iff)
  have "mset (map ident ?s) = mset (map ident h)" by simp
  then have ds: "distinct (map ident ?s)" using assms(1) by (metis mset_eq_imp_distinct_iff)
  have "part_inv ?s (?s, [])"
    using us ds assms(2)
    by (auto simp: part_inv_def found_cards_def cards_not_locked_def list_all_iff)
  from evaluate_hand_closed[OF part_inv_closed this]
  obtain cs fs where inv: "part_inv ?s (cs, fs)"
    and ev: "evaluate_hand h =
             Inr \<lparr>found_sets = fs, res_hand_score = sum_list (map score fs),
                  res_lang_pai = filter (\<lambda>c. \<not> locked c) cs,
                  hand_after = map (\<lambda>c. c\<lparr>locked := False\<rparr>) cs\<rparr>" by blast
  from part_inv_partition[OF inv] inv ev show ?thesis
    by (simp add: part_inv_def)
qed

lemma py_index_nth: "py_index xs x = Inr n \<Longrightarrow> n < length xs \<and> xs ! n = x"
proof (induction xs arbitrary: n)
  case Nil
  then show ?case by simp
next
  case (Cons y ys)
  show ?case
  proof (cases "y = x")
    case True
    with Cons.prems show ?thesis by simp
  next
    case False
    with Cons.prems obtain m where m: "py_index ys x = Inr m" "n = Suc m"
      by (auto split: sum.splits)
    with Cons.IH[OF m(1)] show ?thesis by simp
  qed
qed

lemma calculate_rank_inj:
  assumes "calculate_rank c1 s1 = Inr r" "calculate_rank c2 s2 = Inr r"
  shows "c1 = c2 \<and> s1 = s2"
proof -
  from assms(1) obtain si1 ci1 where a: "py_index validSuits s1 = Inr si1"
    "py_index validColours c1 = Inr ci1" "r = 4 * int si1 + 4 - (int (length validColours) - int ci1)"
    by (auto simp: calculate_rank_def split: sum.splits)
  from assms(2) obtain si2 ci2 where b: "py_index validSuits s2 = Inr si2"
    "py_index validColours c2 = Inr ci2" "r = 4 * int si2 + 4 - (int (length validColours) - int ci2)"
    by (auto simp: calculate_rank_def split: sum.splits)
  note na = py_index_nth[OF a(1)] py_index_nth[OF a(2)]
  note nb = py_index_nth[OF b(1)] py_index_nth[OF b(2)]
  have l: "length validColours = 4" by (simp add: validColours_def)
  have "ci1 < 4" "ci2 < 4" using na nb l by auto
  moreover have "4 * int si1 + int ci1 = 4 * int si2 + int ci2" using a(3) b(3) l by simp
  ultimately have "si1 = si2 \<and> ci1 = ci2" by presburger
  with na nb show ?thesis by auto
qed

lemma filter_eq_takeWhile_sorted:
  "sorted (map f ys) \<Longrightarrow> \<forall>y \<in> set ys. R \<le> f y \<Longrightarrow>
   filter (\<lambda>y. f y = R) ys = takeWhile (\<lambda>y. f y = (R::int)) ys"
proof (induction ys)
  case Nil
  then show ?case by simp
next
  case (Cons y ys)
  show ?case
  proof (cases "f y = R")
    case True
    with Cons show ?thesis by simp
  next
    case False
    with Cons.prems have "\<forall>z \<in> set ys. R < f z" by force
    then have "filter (\<lambda>y. f y = R) ys = []" by (auto simp: filter_empty_conv)
    with False show ?thesis by simp
  qed
qed

lemma takeWhile_nth_holds: "q < length (takeWhile P xs) \<Longrightarrow> P (xs ! q)"
  by (metis nth_mem set_takeWhileD takeWhile_nth)

text \<open>In a list sorted by rank, the cards of one suit and colour stand side by side.\<close>

lemma block_positions_gen:
  fixes B :: "card \<Rightarrow> bool"
  assumes so: "sorted (map rank xs)"
    and BR: "\<And>c d. c \<in> set xs \<Longrightarrow> d \<in> set xs \<Longrightarrow> B d \<Longrightarrow> B c \<longleftrightarrow> rank c = rank d"
    and cnt: "4 \<le> length (filter B xs)"
  defines "p \<equiv> length (takeWhile (\<lambda>c. \<not> B c) xs)"
  shows "\<forall>q < p. \<not> B (xs ! q)"
    and "\<forall>q. p \<le> q \<and> q < p + 4 \<longrightarrow> q < length xs \<and> B (xs ! q)"
proof -
  let ?pre = "takeWhile (\<lambda>c. \<not> B c) xs"
  let ?ys = "dropWhile (\<lambda>c. \<not> B c) xs"
  show "\<forall>q < p. \<not> B (xs ! q)"
    unfolding p_def using takeWhile_nth_holds[of _ "\<lambda>c. \<not> B c" xs] by blast
  have xs: "xs = ?pre @ ?ys" by simp
  have fpre: "filter B ?pre = []" by (auto simp: filter_empty_conv dest: set_takeWhileD)
  have "filter B xs = filter B ?pre @ filter B ?ys" by (subst xs) (simp only: filter_append)
  then have fys: "filter B xs = filter B ?ys" using fpre by simp
  have ne: "?ys \<noteq> []"
  proof
    assume "?ys = []"
    then have "filter B ?ys = []" by (simp only: filter.simps)
    with fys cnt show False by simp
  qed
  define y0 where "y0 = hd ?ys"
  have y0: "B y0" using ne unfolding y0_def by (metis hd_dropWhile)
  have y0in: "y0 \<in> set ?ys" using ne by (simp add: y0_def)
  have sub: "set ?ys \<subseteq> set xs" by (meson set_dropWhileD subsetI)
  define R where "R = rank y0"
  have BR': "B c \<longleftrightarrow> rank c = R" if "c \<in> set xs" for c
    unfolding R_def using BR[OF that _ y0] y0in sub by blast
  have sys: "sorted (map rank ?ys)"
    using so by (subst (asm) xs) (simp only: map_append sorted_append)
  have ge: "\<forall>y \<in> set ?ys. R \<le> rank y"
  proof -
    obtain zs where "?ys = y0 # zs" using ne y0_def by (metis list.collapse)
    with sys show ?thesis by (auto simp: R_def)
  qed
  have "filter B ?ys = filter (\<lambda>c. rank c = R) ?ys"
    by (rule filter_cong) (use BR' sub in auto)
  also have "\<dots> = takeWhile (\<lambda>c. rank c = R) ?ys"
    by (rule filter_eq_takeWhile_sorted[OF sys ge])
  finally have tw: "4 \<le> length (takeWhile (\<lambda>c. rank c = R) ?ys)" using cnt fys by simp
  show "\<forall>q. p \<le> q \<and> q < p + 4 \<longrightarrow> q < length xs \<and> B (xs ! q)"
  proof (intro allI impI)
    fix q assume q: "p \<le> q \<and> q < p + 4"
    define j where "j = q - p"
    have j: "j < length (takeWhile (\<lambda>c. rank c = R) ?ys)" using q tw unfolding j_def by linarith
    have jl: "j < length ?ys" using j length_takeWhile_le[of "\<lambda>c. rank c = R" ?ys] by linarith
    have rj: "rank (?ys ! j) = R" using takeWhile_nth_holds[OF j] .
    have len: "length xs = p + length ?ys"
      unfolding p_def by (metis length_append takeWhile_dropWhile_id)
    have "q = length ?pre + j" using q unfolding j_def p_def by linarith
    then have nth: "xs ! q = ?ys ! j"
      by (metis nth_append_length_plus takeWhile_dropWhile_id)
    have "?ys ! j \<in> set xs" using jl sub by (meson nth_mem subsetD)
    with BR' rj nth have "B (xs ! q)" by simp
    moreover have "q < length xs" using len jl q unfolding j_def by linarith
    ultimately show "q < length xs \<and> B (xs ! q)" by simp
  qed
qed

lemma same_kind_iff_rank:
  assumes wf: "\<forall>c \<in> set xs. calculate_rank (colour c) (suit c) = Inr (rank c)"
    and "c \<in> set xs" "d \<in> set xs" "suit d = su \<and> colour d = col"
  shows "(suit c = su \<and> colour c = col) \<longleftrightarrow> rank c = rank d"
proof
  assume "suit c = su \<and> colour c = col"
  then have "calculate_rank (colour c) (suit c) = calculate_rank (colour d) (suit d)"
    using assms(4) by simp
  then show "rank c = rank d" using wf assms(2,3) by (metis sum.inject(2))
next
  assume "rank c = rank d"
  then have "calculate_rank (colour c) (suit c) = Inr (rank d)"
    "calculate_rank (colour d) (suit d) = Inr (rank d)"
    using wf assms(2,3) by auto
  from calculate_rank_inj[OF this] assms(4) show "suit c = su \<and> colour c = col" by simp
qed

lemma first_row_in: "\<forall>(b, v) \<in> set rows. v \<in> S \<Longrightarrow> spec_first_row rows = Some v \<Longrightarrow> v \<in> S"
  by (induction rows) (auto split: if_splits)

lemma spec_identical_iff:
  assumes "tc \<noteq> []"
  shows "spec_identical_non_kuin tc =
     ((\<forall>c \<in> set tc. suit c = suit (hd tc) \<and> colour c = colour (hd tc)) \<and> suit (hd tc) \<noteq> ''kuin'')"
proof -
  from assms obtain c rest where tc: "tc = c # rest" by (cases tc) auto
  show ?thesis
    unfolding spec_identical_non_kuin_def tc remdups_one_iff
    by (auto simp: list_all_iff)
qed

lemma spec_score_four_iff:
  "(fst (spec_score tc) \<in> {8, 6}) = (length tc = 4 \<and> spec_identical_non_kuin tc)"
proof (cases "length tc = 4 \<and> spec_identical_non_kuin tc")
  case True
  then show ?thesis by (simp add: spec_score_def spec_score_table_def)
next
  case False
  define rows where "rows = tl (spec_score_table tc)"
  have sp: "spec_first_row (spec_score_table tc) = spec_first_row rows"
    using False unfolding rows_def spec_score_table_def by auto
  have "\<forall>(b, v) \<in> set rows. v \<in> {0, 1, 2, 3, 4}"
    unfolding rows_def spec_score_table_def by simp
  from first_row_in[OF this] have "\<And>v. spec_first_row rows = Some v \<Longrightarrow> v \<in> {0, 1, 2, 3, 4}" .
  then have "fst (spec_score tc) \<notin> {8, 6}"
    unfolding spec_score_def sp by (cases "spec_first_row rows") auto
  with False show ?thesis by simp
qed

lemma try_set_cases:
  assumes "tc \<noteq> []"
  obtains ts where "Set_init tc = Inr ts" "scards ts = tc" "(score ts, invalid ts) = spec_score tc"
    "try_set ok tc st =
       Inr (if ok (score ts) \<and> cards_not_locked tc
            then (True, lock_cards tc (fst st), snd st @ [ts]) else (False, st))"
proof -
  from Set_init_ne[OF assms] obtain ts where ts: "Set_init tc = Inr ts" "scards ts = tc"
    "(score ts, invalid ts) = spec_score tc" by blast
  then have "try_set ok tc st =
       Inr (if ok (score ts) \<and> cards_not_locked tc
            then (True, lock_cards tc (fst st), snd st @ [ts]) else (False, st))"
    by (simp add: try_set_def)
  with ts show ?thesis using that by blast
qed

lemma lock_cards_other:
  assumes "q < length cs" "ident (cs ! q) \<notin> ident ` set tc"
  shows "lock_cards tc cs ! q = cs ! q"
  using assms by (simp add: lock_cards_def)

text \<open>
  Tier 1 commits the first four of a group of unlocked cards of one suit (not kuin) and
  one colour that stand side by side from position \<open>p\<close>.
\<close>

lemma tier1_block:
  fixes B :: "card \<Rightarrow> bool"
  assumes Bdef: "\<And>c. B c = (suit c = su \<and> colour c = col)" and su: "su \<noteq> ''kuin''"
    and F1: "\<forall>q < p. \<not> B (u ! q)"
    and F2: "\<forall>q. p \<le> q \<and> q < p + 4 \<longrightarrow> q < length u \<and> B (u ! q)"
    and du: "distinct (map ident u)"
  shows "map unlock (fst st) = u \<Longrightarrow>
     (\<exists>t \<in> set (snd st). length (scards t) = 4 \<and> (\<forall>c \<in> set (scards t). B c) \<and> score t \<in> {8, 6})
       \<or> (i \<le> p \<and> (\<forall>q. p \<le> q \<and> q < p + 4 \<longrightarrow> \<not> locked (fst st ! q))) \<Longrightarrow>
     \<exists>st'. tier1 i st = Inr st' \<and>
       (\<exists>t \<in> set (snd st'). length (scards t) = 4 \<and> (\<forall>c \<in> set (scards t). B c) \<and> score t \<in> {8, 6})"
proof (induction i st rule: tier1.induct)
  case (1 i st)
  let ?good = "\<lambda>t. length (scards t) = 4 \<and> (\<forall>c \<in> set (scards t). B c) \<and> score t \<in> {8, 6}"
  define cs where "cs = fst st"
  define fs where "fs = snd st"
  have u: "map unlock cs = u" using "1.prems"(1) by (simp add: cs_def)
  have len: "length cs = length u" using u by auto
  have Bnth: "B (cs ! q) = B (u ! q)" if "q < length cs" for q
  proof -
    have "u ! q = unlock (cs ! q)" using u that by auto
    then show ?thesis by (simp add: Bdef unlock_def)
  qed
  have idn: "ident (cs ! q) = map ident u ! q" if "q < length cs" for q
    using map_ident_unlock[OF u] that by (metis nth_map)
  show ?case
  proof (cases "i + 4 \<le> length cs")
    case False
    have "\<exists>t \<in> set fs. ?good t"
    proof (rule ccontr)
      assume "\<not> (\<exists>t \<in> set fs. ?good t)"
      with "1.prems"(2) have "i \<le> p" by (auto simp: fs_def)
      moreover from F2[rule_format, of "p + 3"] have "p + 3 < length u" by simp
      ultimately show False using False len by linarith
    qed
    then show ?thesis using False by (subst tier1.simps) (simp add: cs_def fs_def)
  next
    case True
    define tc where "tc = take 4 (drop i cs)"
    have tcn: "tc = map (\<lambda>j. cs ! j) [i..<i + 4]" unfolding tc_def using True by (rule take_drop_nth)
    have tcne: "tc \<noteq> []" and ltc: "length tc = 4" using True by (auto simp: tc_def)
    obtain ts where ts: "Set_init tc = Inr ts" "scards ts = tc" "(score ts, invalid ts) = spec_score tc"
      and tr: "try_set (\<lambda>r. r \<in> {8, 6}) tc st =
         Inr (if score ts \<in> {8, 6} \<and> cards_not_locked tc
              then (True, lock_cards tc (fst st), snd st @ [ts]) else (False, st))"
      by (rule try_set_cases[OF tcne, of "\<lambda>r. r \<in> {8, 6}" st])
    define b where "b = (score ts \<in> {8, 6} \<and> cards_not_locked tc)"
    define st' where "st' = (if b then (lock_cards tc cs, fs @ [ts]) else st)"
    have tr': "try_set (\<lambda>r. r \<in> {8, 6}) (take 4 (drop i (fst st))) st = Inr (b, st')"
      using tr by (simp add: b_def st'_def tc_def cs_def fs_def)
    have u': "map unlock (fst st') = u" using u by (simp add: st'_def cs_def)
    have sc: "score ts = fst (spec_score tc)" using ts(3)[symmetric] by simp
    have J': "(\<exists>t \<in> set (snd st'). ?good t)
       \<or> ((if b then i + 3 + 1 else i + 1) \<le> p \<and> (\<forall>q. p \<le> q \<and> q < p + 4 \<longrightarrow> \<not> locked (fst st' ! q)))"
    proof (cases "\<exists>t \<in> set fs. ?good t")
      case True
      then show ?thesis by (auto simp: st'_def fs_def)
    next
      case nf: False
      with "1.prems"(2) have ip: "i \<le> p" and unl: "\<forall>q. p \<le> q \<and> q < p + 4 \<longrightarrow> \<not> locked (cs ! q)"
        by (auto simp: fs_def cs_def)
      show ?thesis
      proof (cases "i = p")
        case True
        have allB: "\<forall>c \<in> set tc. B c"
          unfolding tcn using F2 Bnth True len by auto
        have "cards_not_locked tc"
          unfolding tcn cards_not_locked_def using unl True by (auto simp: list_all_iff)
        moreover have "spec_identical_non_kuin tc"
          unfolding spec_identical_iff[OF tcne] using allB su tcne by (auto simp: Bdef)
        then have "score ts \<in> {8, 6}" unfolding sc spec_score_four_iff using ltc by simp
        ultimately have b by (simp add: b_def)
        then have "ts \<in> set (snd st')" by (simp add: st'_def)
        moreover have "?good ts" using ts(2) ltc allB \<open>score ts \<in> {8, 6}\<close> by simp
        ultimately show ?thesis by blast
      next
        case False
        with ip have ilt: "i < p" by simp
        show ?thesis
        proof (cases b)
          case False
          then show ?thesis using ilt unl by (simp add: st'_def cs_def)
        next
          case True
          then have "fst (spec_score tc) \<in> {8, 6}" using sc by (simp add: b_def)
          then have idt: "spec_identical_non_kuin tc" unfolding spec_score_four_iff by simp
          have hd: "hd tc = cs ! i" unfolding tcn by (simp add: upt_rec)
          have nB0: "\<not> B (cs ! i)" using F1 ilt Bnth True \<open>i + 4 \<le> length cs\<close> by simp
          have same: "\<forall>c \<in> set tc. suit c = suit (cs ! i) \<and> colour c = colour (cs ! i)"
            using idt unfolding spec_identical_iff[OF tcne] hd by blast
          have nB: "\<forall>c \<in> set tc. \<not> B c"
          proof
            fix c assume "c \<in> set tc"
            with same have "B c = B (cs ! i)" unfolding Bdef by simp
            with nB0 show "\<not> B c" by simp
          qed
          have far: "i + 4 \<le> p"
          proof (rule ccontr)
            assume "\<not> i + 4 \<le> p"
            then have "p \<in> set [i..<i + 4]" using ilt by simp
            then have "cs ! p \<in> set tc" unfolding tcn by (simp only: set_map image_eqI)
            moreover have "B (cs ! p)" using F2 Bnth len by simp
            ultimately show False using nB by blast
          qed
          have "\<not> locked (lock_cards tc cs ! q)" if q: "p \<le> q \<and> q < p + 4" for q
          proof -
            have ql: "q < length cs" using F2 q len by simp
            have "ident (cs ! q) \<notin> ident ` set tc"
            proof
              assume "ident (cs ! q) \<in> ident ` set tc"
              then obtain j where j: "j \<in> set [i..<i + 4]" "ident (cs ! j) = ident (cs ! q)"
                unfolding tcn by auto
              then have jl: "j < length cs" using \<open>i + 4 \<le> length cs\<close> by simp
              from j(2) idn[OF jl] idn[OF ql] have "map ident u ! j = map ident u ! q" by simp
              moreover have "j < length (map ident u)" "q < length (map ident u)"
                using jl ql len by simp_all
              ultimately have "j = q" using du nth_eq_iff_index_eq by blast
              with j(1) far q show False by simp
            qed
            then show ?thesis using lock_cards_other[OF ql] unl q by simp
          qed
          then show ?thesis using True far by (simp add: st'_def)
        qed
      qed
    qed
    from "1.IH"[OF _ tr' refl u' J'] \<open>i + 4 \<le> length cs\<close>
    obtain st'' where "tier1 (if b then i + 3 + 1 else i + 1) st' = Inr st''"
      "\<exists>t \<in> set (snd st''). ?good t" unfolding cs_def by blast
    then show ?thesis using \<open>i + 4 \<le> length cs\<close> tr' by (subst tier1.simps) (simp add: cs_def)
  qed
qed

lemma evaluate_hand_after_tier1:
  assumes t1: "tier1 0 (sort_key rank h, []) = Inr s1" and cc: "commit_closed P" and P: "P s1"
  shows "\<exists>cs fs. P (cs, fs) \<and>
           evaluate_hand h =
             Inr \<lparr>found_sets = fs, res_hand_score = sum_list (map score fs),
                  res_lang_pai = filter (\<lambda>c. \<not> locked c) cs,
                  hand_after = map (\<lambda>c. c\<lparr>locked := False\<rparr>) cs\<rparr>"
proof -
  from tier2_closed[OF cc P] obtain s2 where s2: "tier2 s1 = Inr s2" "P s2" by blast
  from tier3_closed[OF cc s2(2)] obtain s3 where s3: "tier3 0 s2 = Inr s3" "P s3" by blast
  from tier4_closed[OF cc s3(2)] obtain s4 where s4: "tier4 s3 = Inr s4" "P s4" by blast
  from tier5_closed[OF cc s4(2)] obtain s5 where s5: "tier5 s4 = Inr s5" "P s5" by blast
  from tier6_closed[OF cc s5(2)] obtain s6 where s6: "tier6 0 s5 = Inr s6" "P s6" by blast
  obtain cs fs where cf: "s6 = (cs, fs)" by (cases s6)
  show ?thesis
    by (intro exI[of _ cs] exI[of _ fs])
       (use t1 s2 s3 s4 s5 s6 cf in \<open>simp add: evaluate_hand_def sort_cards_def Let_def\<close>)
qed

lemma commit_closed_keeps_set: "commit_closed (\<lambda>st. \<exists>t \<in> set (snd st). G t)"
  by (auto simp: commit_closed_def commit_def)

lemma evaluate_hand_four_identical:
  assumes dh: "distinct (map ident h)" and nl: "cards_not_locked h"
    and wf: "\<forall>c \<in> set h. calculate_rank (colour c) (suit c) = Inr (rank c)"
    and su: "su \<noteq> ''kuin''"
    and cnt: "4 \<le> length (filter (\<lambda>c. suit c = su \<and> colour c = col) h)"
  shows "\<exists>r. evaluate_hand h = Inr r \<and>
     (\<exists>t \<in> set (found_sets r). length (scards t) = 4 \<and>
        (\<forall>c \<in> set (scards t). suit c = su \<and> colour c = col) \<and> score t \<in> {8, 6})"
proof -
  let ?s = "sort_key rank h"
  define B where "B = (\<lambda>c :: card. suit c = su \<and> colour c = col)"
  define p where "p = length (takeWhile (\<lambda>c. \<not> B c) ?s)"
  have us: "map unlock ?s = ?s"
    using nl by (intro map_idI unlock_id) (auto simp: cards_not_locked_def list_all_iff)
  have "mset (map ident ?s) = mset (map ident h)" by simp
  then have ds: "distinct (map ident ?s)" using dh by (metis mset_eq_imp_distinct_iff)
  have so: "sorted (map rank ?s)" by simp
  have wfs: "\<forall>c \<in> set ?s. calculate_rank (colour c) (suit c) = Inr (rank c)" using wf by simp
  have "mset (filter B ?s) = mset (filter B h)" by simp
  then have "length (filter B ?s) = length (filter B h)" by (metis size_mset)
  then have cnts: "4 \<le> length (filter B ?s)" using cnt by (simp add: B_def)
  have BR: "\<And>c d. c \<in> set ?s \<Longrightarrow> d \<in> set ?s \<Longrightarrow> B d \<Longrightarrow> B c \<longleftrightarrow> rank c = rank d"
    unfolding B_def by (rule same_kind_iff_rank[OF wfs])
  note F = block_positions_gen[OF so BR cnts, folded p_def]
  have J: "(\<exists>t \<in> set (snd (?s, [])). length (scards t) = 4 \<and> (\<forall>c \<in> set (scards t). B c) \<and> score t \<in> {8, 6})
       \<or> (0 \<le> p \<and> (\<forall>q. p \<le> q \<and> q < p + 4 \<longrightarrow> \<not> locked (fst (?s, []) ! q)))"
  proof -
    have "\<not> locked (?s ! q)" if "p \<le> q \<and> q < p + 4" for q
    proof -
      from F(2) that have "q < length ?s" by blast
      then have "?s ! q \<in> set ?s" by (rule nth_mem)
      then show ?thesis using nl by (simp add: cards_not_locked_def list_all_iff)
    qed
    then show ?thesis by simp
  qed
  have Bd: "\<And>c. B c = (suit c = su \<and> colour c = col)" by (simp add: B_def)
  have us': "map unlock (fst (?s, [])) = ?s" using us by simp
  from tier1_block[of B su col p ?s "(?s, [])" 0, OF Bd su F ds us' J]
  obtain s1 where s1: "tier1 0 (?s, []) = Inr s1"
    "\<exists>t \<in> set (snd s1). length (scards t) = 4 \<and> (\<forall>c \<in> set (scards t). B c) \<and> score t \<in> {8, 6}"
    by blast
  from evaluate_hand_after_tier1[OF s1(1) commit_closed_keeps_set, of
      "\<lambda>t. length (scards t) = 4 \<and> (\<forall>c \<in> set (scards t). B c) \<and> score t \<in> {8, 6}"] s1(2)
  obtain cs fs where "\<exists>t \<in> set fs. length (scards t) = 4 \<and> (\<forall>c \<in> set (scards t). B c) \<and> score t \<in> {8, 6}"
    "evaluate_hand h =
             Inr \<lparr>found_sets = fs, res_hand_score = sum_list (map score fs),
                  res_lang_pai = filter (\<lambda>c. \<not> locked c) cs,
                  hand_after = map (\<lambda>c. c\<lparr>locked := False\<rparr>) cs\<rparr>"
    by (metis snd_conv)
  then show ?thesis unfolding Bd by (metis eval_result.select_convs(1))
qed

text \<open>
  C5. For every hand of distinct card objects, none of them locked (the state of every
  card outside the evaluator), \<^verbatim>\<open>evaluate_hand\<close> returns sets and lang pai in which no
  card occurs twice (the sets are pairwise disjoint and disjoint from the lang pai, so a
  card consumed by one tier is used by no later tier), that together hold exactly the
  cards of the hand, and no returned set has the score -1 or is invalid. When the cards
  carry the ranks of their suit and colour and four or more chut cards of one colour are
  in the hand, four of them are committed as an identical set (score 8, or 6 when
  melded), not as a multicolour chut set.
\<close>

theorem evaluate_hand_partition:
  assumes "distinct (map ident h)" "cards_not_locked h"
  shows "\<exists>r. evaluate_hand h = Inr r \<and>
       distinct (map ident (found_cards (found_sets r) @ res_lang_pai r)) \<and>
       mset (found_cards (found_sets r) @ res_lang_pai r) = mset h \<and>
       (\<forall>t \<in> set (found_sets r). score t \<noteq> - 1 \<and> \<not> invalid t) \<and>
       ((\<forall>c \<in> set h. calculate_rank (colour c) (suit c) = Inr (rank c)) \<longrightarrow>
        (\<forall>col. 4 \<le> length (filter (\<lambda>c. suit c = ''chut'' \<and> colour c = col) h) \<longrightarrow>
           (\<exists>t \<in> set (found_sets r). length (scards t) = 4 \<and>
              (\<forall>c \<in> set (scards t). suit c = ''chut'' \<and> colour c = col) \<and> score t \<in> {8, 6})))"
proof -
  from evaluate_hand_partition0[OF assms] obtain r where r: "evaluate_hand h = Inr r"
    "distinct (map ident (found_cards (found_sets r) @ res_lang_pai r))"
    "mset (found_cards (found_sets r) @ res_lang_pai r) = mset h"
    "\<forall>t \<in> set (found_sets r). score t \<in> {8, 6, 4, 3, 2, 1, 0} \<and> \<not> invalid t" by blast
  have sc: "\<forall>t \<in> set (found_sets r). score t \<noteq> - 1 \<and> \<not> invalid t" using r(4) by auto
  have four: "\<exists>t \<in> set (found_sets r). length (scards t) = 4 \<and>
              (\<forall>c \<in> set (scards t). suit c = ''chut'' \<and> colour c = col) \<and> score t \<in> {8, 6}"
    if "\<forall>c \<in> set h. calculate_rank (colour c) (suit c) = Inr (rank c)"
      "4 \<le> length (filter (\<lambda>c. suit c = ''chut'' \<and> colour c = col) h)" for col
    using evaluate_hand_four_identical[OF assms that(1) _ that(2)] r(1) by auto
  show ?thesis
    by (intro exI[of _ r] conjI r(1) r(2) r(3) sc) (use four in blast)
qed

theorem evaluate_hand_partition_witness:
  "distinct (map ident [new_card 1 ''green'' ''chut'', new_card 2 ''red'' ''chut'', new_card 3 ''green'' ''chut'',
                  new_card 4 ''green'' ''chut'', new_card 5 ''yellow'' ''chut'',
                  new_card 6 ''green'' ''chut'', new_card 7 ''white'' ''chut'']) \<and>
   cards_not_locked [new_card 1 ''green'' ''chut'', new_card 2 ''red'' ''chut'', new_card 3 ''green'' ''chut'',
                  new_card 4 ''green'' ''chut'', new_card 5 ''yellow'' ''chut'',
                  new_card 6 ''green'' ''chut'', new_card 7 ''white'' ''chut''] \<and>
   (\<exists>r. evaluate_hand [new_card 1 ''green'' ''chut'', new_card 2 ''red'' ''chut'', new_card 3 ''green'' ''chut'',
                  new_card 4 ''green'' ''chut'', new_card 5 ''yellow'' ''chut'',
                  new_card 6 ''green'' ''chut'', new_card 7 ''white'' ''chut''] = Inr r \<and>
       distinct (map ident (found_cards (found_sets r) @ res_lang_pai r)) \<and>
       mset (found_cards (found_sets r) @ res_lang_pai r) = mset [new_card 1 ''green'' ''chut'', new_card 2 ''red'' ''chut'', new_card 3 ''green'' ''chut'',
                  new_card 4 ''green'' ''chut'', new_card 5 ''yellow'' ''chut'',
                  new_card 6 ''green'' ''chut'', new_card 7 ''white'' ''chut''] \<and>
       (\<exists>t \<in> set (found_sets r). length (scards t) = 4 \<and>
          (\<forall>c \<in> set (scards t). suit c = ''chut'' \<and> colour c = ''green'') \<and>
          score t \<in> {8, 6}))"
proof -
  define h where "h = [new_card 1 ''green'' ''chut'', new_card 2 ''red'' ''chut'', new_card 3 ''green'' ''chut'',
                  new_card 4 ''green'' ''chut'', new_card 5 ''yellow'' ''chut'',
                  new_card 6 ''green'' ''chut'', new_card 7 ''white'' ''chut'']"
  have a: "distinct (map ident h)" "cards_not_locked h" unfolding h_def by code_simp+
  have b: "\<forall>c \<in> set h. calculate_rank (colour c) (suit c) = Inr (rank c)"
    unfolding h_def by code_simp
  have c: "4 \<le> length (filter (\<lambda>c. suit c = ''chut'' \<and> colour c = ''green'') h)"
    unfolding h_def by code_simp
  from evaluate_hand_partition[OF a] b c a show ?thesis unfolding h_def by blast
qed

subsection \<open>The turn: the deck that has run out\<close>

lemma replenish_deck_keeps_discards:
  assumes "cards (deck g) = []" "discards g \<noteq> []"
  shows "\<exists>g'. replenish_deck g = Some g' \<and> discards g' = discards g \<and>
             mset (cards (deck g')) = mset (discards g)"
proof -
  obtain d t where sh: "shuffle_deck (rng g) ((deck g)\<lparr>cards := cards (deck g) @ discards g\<rparr>) = (d, t)"
    by (cases "shuffle_deck (rng g) ((deck g)\<lparr>cards := cards (deck g) @ discards g\<rparr>)")
  have "mset (cards d) = mset (discards g)"
    using cards_shuffle_deck[of "rng g" "(deck g)\<lparr>cards := cards (deck g) @ discards g\<rparr>"] sh assms(1)
    by simp
  then show ?thesis using assms sh by (simp add: replenish_deck_def)
qed

text \<open>
  C2 (the code at a failing input). The deck is empty and the discard pile holds the green
  pau: the replenishment puts the green pau into the deck and leaves it in the discard
  pile as well, so the pile is not emptied and deck and discards together hold two cards
  where they held one.
\<close>

theorem conduct_turn_replenish_keeps_discards:
  "map_option discards
     (replenish_deck
        \<lparr>deck = \<lparr>ndecks = 1, cards = []\<rparr>,
         players = [(Player_init ''a'')
            \<lparr>hand := [new_card 1 ''red'' ''kee'', new_card 2 ''yellow'' ''mah''],
             lang_pai := [new_card 1 ''red'' ''kee'', new_card 2 ''yellow'' ''mah''],
             collection := [new_card 1 ''red'' ''kee'', new_card 2 ''yellow'' ''mah'']\<rparr>],
         current_player = 0,
         active_card = Some ((new_card 4 ''white'' ''tse'')\<lparr>active := True\<rparr>),
         discards = [(new_card 3 ''green'' ''pau'')\<lparr>active := True\<rparr>],
         faceup_sets = [], turn_count = 3, verbose = False, enable_oot = False, rng = [],
         next_ident = 5\<rparr>)
     = Some [(new_card 3 ''green'' ''pau'')\<lparr>active := True\<rparr>] \<and>
   map_option (cards \<circ> deck)
     (replenish_deck
        \<lparr>deck = \<lparr>ndecks = 1, cards = []\<rparr>,
         players = [(Player_init ''a'')
            \<lparr>hand := [new_card 1 ''red'' ''kee'', new_card 2 ''yellow'' ''mah''],
             lang_pai := [new_card 1 ''red'' ''kee'', new_card 2 ''yellow'' ''mah''],
             collection := [new_card 1 ''red'' ''kee'', new_card 2 ''yellow'' ''mah'']\<rparr>],
         current_player = 0,
         active_card = Some ((new_card 4 ''white'' ''tse'')\<lparr>active := True\<rparr>),
         discards = [(new_card 3 ''green'' ''pau'')\<lparr>active := True\<rparr>],
         faceup_sets = [], turn_count = 3, verbose = False, enable_oot = False, rng = [],
         next_ident = 5\<rparr>)
     = Some [(new_card 3 ''green'' ''pau'')\<lparr>active := True\<rparr>]"
  by code_simp

text \<open>
  C1 (the code at a failing input). In the same state (cards 3, 1, 2, 4 on the table and in
  the hand), one turn replenishes the deck from the discards without emptying them: after
  it the green pau (card 3) is both in the discard pile and the active card, and the cards
  of the game are 3, 4, 1, 2, 3.
\<close>

theorem conduct_turn_duplicates_card:
  "map ident (all_cards
        \<lparr>deck = \<lparr>ndecks = 1, cards = []\<rparr>,
         players = [(Player_init ''a'')
            \<lparr>hand := [new_card 1 ''red'' ''kee'', new_card 2 ''yellow'' ''mah''],
             lang_pai := [new_card 1 ''red'' ''kee'', new_card 2 ''yellow'' ''mah''],
             collection := [new_card 1 ''red'' ''kee'', new_card 2 ''yellow'' ''mah'']\<rparr>],
         current_player = 0,
         active_card = Some ((new_card 4 ''white'' ''tse'')\<lparr>active := True\<rparr>),
         discards = [(new_card 3 ''green'' ''pau'')\<lparr>active := True\<rparr>],
         faceup_sets = [], turn_count = 3, verbose = False, enable_oot = False, rng = [],
         next_ident = 5\<rparr>) = [3, 1, 2, 4] \<and>
   map_sum id (map_prod id (map ident \<circ> all_cards))
     (conduct_turn False
        \<lparr>deck = \<lparr>ndecks = 1, cards = []\<rparr>,
         players = [(Player_init ''a'')
            \<lparr>hand := [new_card 1 ''red'' ''kee'', new_card 2 ''yellow'' ''mah''],
             lang_pai := [new_card 1 ''red'' ''kee'', new_card 2 ''yellow'' ''mah''],
             collection := [new_card 1 ''red'' ''kee'', new_card 2 ''yellow'' ''mah'']\<rparr>],
         current_player = 0,
         active_card = Some ((new_card 4 ''white'' ''tse'')\<lparr>active := True\<rparr>),
         discards = [(new_card 3 ''green'' ''pau'')\<lparr>active := True\<rparr>],
         faceup_sets = [], turn_count = 3, verbose = False, enable_oot = False, rng = [],
         next_ident = 5\<rparr>)
     = Inr (''next'', [3, 4, 1, 2, 3])"
  by code_simp

subsection \<open>The out-of-turn priority\<close>

lemma sets_built_closed: "commit_closed (\<lambda>st. \<forall>t \<in> set (snd st). Set_init (scards t) = Inr t)"
  unfolding commit_closed_def
proof (intro allI impI)
  fix st idxs ts
  assume inv: "\<forall>t \<in> set (snd st). Set_init (scards t) = Inr t" and ne: "idxs \<noteq> []"
    and ts: "Set_init (map (\<lambda>i. fst st ! i) idxs) = Inr ts"
  have "map (\<lambda>i. fst st ! i) idxs \<noteq> []" using ne by simp
  from Set_init_ne[OF this] ts have "scards ts = map (\<lambda>i. fst st ! i) idxs" by auto
  with inv ts show "\<forall>t \<in> set (snd (commit idxs ts st)). Set_init (scards t) = Inr t"
    by (auto simp: commit_def)
qed

lemma evaluate_hand_sets_built:
  assumes "evaluate_hand h = Inr r" "t \<in> set (found_sets r)"
  shows "Set_init (scards t) = Inr t" and "scards t \<noteq> []"
proof -
  from evaluate_hand_closed[OF sets_built_closed, of h] assms
  show b: "Set_init (scards t) = Inr t" by auto
  show "scards t \<noteq> []"
  proof
    assume "scards t = []"
    with b show False by (simp add: Set_init_def Let_def)
  qed
qed

lemma check_meld_total: "\<exists>m. check_meld (Some a) p = Inr m"
proof -
  from evaluate_hand_total[of "hand p @ [a]"] obtain r where "evaluate_hand (hand p @ [a]) = Inr r"
    by blast
  then show ?thesis by (simp add: check_meld_def Let_def split: option.splits)
qed

lemma check_meld_Some_ne:
  assumes "check_meld (Some a) p = Inr (Some s)"
  shows "scards s \<noteq> []"
proof -
  from evaluate_hand_total[of "hand p @ [a]"] obtain r where r: "evaluate_hand (hand p @ [a]) = Inr r"
    by blast
  with assms have "find melded (found_sets r) = Some s"
    by (auto simp: check_meld_def Let_def split: option.splits if_splits)
  then have "s \<in> set (found_sets r)" by (auto simp: find_Some_iff)
  from evaluate_hand_sets_built(2)[OF r this] show ?thesis .
qed

lemma check_meld_meld_of: "check_meld (Some a) p = Inr (meld_of a p)"
  using check_meld_total[of a p] by (auto simp: meld_of_def)

lemma collect_melds_eq: "collect_melds (Some a) ps = Inr (map (meld_of a) ps)"
  by (induction ps) (simp_all add: check_meld_meld_of)

lemma is_identical_set_eq:
  assumes "scards s \<noteq> []"
  shows "is_identical_set s =
     Inr (\<forall>c \<in> set (scards s). suit c = suit (hd (scards s)) \<and> colour c = colour (hd (scards s)))"
proof -
  from assms obtain c rest where "scards s = c # rest" by (cases "scards s") auto
  then show ?thesis by (auto simp: is_identical_set_def list_all_iff)
qed

lemma is_four_colour_set_eq:
  assumes "scards s \<noteq> []"
  shows "is_four_colour_set s =
     Inr (length (scards s) = 4 \<and> (\<forall>c \<in> set (scards s). suit c = ''chut'') \<and>
          cards_unique_colours (scards s))"
proof -
  from assms obtain c rest where "scards s = c # rest" by (cases "scards s") auto
  then show ?thesis by (auto simp: is_four_colour_set_def list_all_iff)
qed

lemma spec_eligible_meld_of:
  "spec_eligible k a p =
     (case meld_of a p of None \<Rightarrow> False
      | Some s \<Rightarrow> length (scards s) = k \<and>
          (\<forall>c \<in> set (scards s). suit c = suit (hd (scards s)) \<and> colour c = colour (hd (scards s))))"
  by (simp add: spec_eligible_def check_meld_meld_of)

lemma oot_scan_find:
  assumes n: "0 < length (players g)" and sets: "oot_sets = map (meld_of a) (players g)"
  shows "cp < length (players g) \<Longrightarrow>
     oot_scan k sz oot_sets cp g =
       Inr (case find (\<lambda>i. spec_eligible sz a (players g ! i))
                   (map (\<lambda>j. (cp + j) mod length (players g)) [0..<k]) of
              Some j \<Rightarrow> Inr (spec_resolve g j)
            | None \<Rightarrow> Inl ((cp + k) mod length (players g)))"
proof (induction k arbitrary: cp)
  case 0
  then show ?case by simp
next
  case (Suc k)
  let ?n = "length (players g)"
  let ?cp' = "(cp + 1) mod ?n"
  have cp': "?cp' < ?n" using n by simp
  have lst: "map (\<lambda>j. (cp + j) mod ?n) [0..<Suc k] = cp # map (\<lambda>j. (?cp' + j) mod ?n) [0..<k]"
  proof -
    have "[0..<Suc k] = 0 # map Suc [0..<k]" by (metis map_Suc_upt upt_conv_Cons zero_less_Suc)
    then have "map (\<lambda>j. (cp + j) mod ?n) [0..<Suc k]
        = (cp mod ?n) # map (\<lambda>j. (cp + Suc j) mod ?n) [0..<k]" by (simp add: comp_def del: upt_Suc)
    moreover have "(cp + Suc j) mod ?n = (?cp' + j) mod ?n" for j
      by (metis add.commute add_Suc_right mod_add_left_eq plus_1_eq_Suc add.assoc)
    ultimately show ?thesis using Suc.prems by simp
  qed
  have end': "(?cp' + k) mod ?n = (cp + Suc k) mod ?n"
    by (metis add.commute add_Suc_right mod_add_left_eq plus_1_eq_Suc add.assoc)
  note IH = Suc.IH[OF cp', unfolded end']
  have nth: "oot_sets ! cp = meld_of a (players g ! cp)" using sets Suc.prems by simp
  have len: "\<not> length oot_sets \<le> cp" using sets Suc.prems by simp
  show ?case
  proof (cases "meld_of a (players g ! cp)")
    case None
    then have "\<not> spec_eligible sz a (players g ! cp)" by (simp add: spec_eligible_meld_of)
    then show ?thesis
      unfolding lst using None nth len n IH by simp
  next
    case (Some s)
    then have "check_meld (Some a) (players g ! cp) = Inr (Some s)" using check_meld_meld_of[of a "players g ! cp"] by simp
    from check_meld_Some_ne[OF this] have ne: "scards s \<noteq> []" .
    show ?thesis
    proof (cases "spec_eligible sz a (players g ! cp)")
      case True
      then show ?thesis
        unfolding lst using Some nth len n is_identical_set_eq[OF ne]
        by (auto simp: spec_eligible_meld_of spec_resolve_def)
    next
      case False
      then show ?thesis
        unfolding lst using Some nth len n is_identical_set_eq[OF ne] IH
        by (auto simp: spec_eligible_meld_of)
    qed
  qed
qed

text \<open>
  C7. For every configuration of players, current player (an index of the list of
  players) and active card, \<^verbatim>\<open>check_oot\<close> returns what the priority rule of the
  specification gives: the players are scanned in turn order from the current player;
  the first player eligible for a 4-of-a-kind decides: \<^verbatim>\<open>'meld'\<close> without reassignment when
  he is the natural next player, otherwise \<^verbatim>\<open>'oot'\<close> with him as the current player; with
  no such player, a 4-colour chut of the current player gives \<^verbatim>\<open>'meld'\<close> and no other
  player can claim one; then the 3-of-a-kind is scanned in the same way; the default is
  \<^verbatim>\<open>'meld'\<close>. So \<^verbatim>\<open>'oot'\<close> is returned only for an eligible player that is not the natural
  next player, and the 4-of-a-kind outranks the chut and the 3-of-a-kind.
\<close>

theorem check_oot_priority:
  assumes a: "active_card g = Some a" and cp: "current_player g < length (players g)"
  shows "check_oot drawn g = Inr (spec_check_oot a g)"
proof -
  let ?n = "length (players g)"
  let ?sets = "map (meld_of a) (players g)"
  have n: "0 < ?n" using cp by linarith
  have wrap: "(current_player g + ?n) mod ?n = current_player g" using cp by simp
  note scan = oot_scan_find[OF n refl cp, of "length (players g)", unfolded wrap]
  have four: "(case ?sets ! current_player g of None \<Rightarrow> Inr False | Some s \<Rightarrow> is_four_colour_set s)
      = Inr (spec_four_colour a (players g ! current_player g))"
  proof (cases "meld_of a (players g ! current_player g)")
    case None
    then show ?thesis using cp check_meld_meld_of[of a "players g ! current_player g"]
      by (simp add: spec_four_colour_def)
  next
    case (Some s)
    then have cm: "check_meld (Some a) (players g ! current_player g) = Inr (Some s)"
      using check_meld_meld_of[of a "players g ! current_player g"] by simp
    from check_meld_Some_ne[OF cm] have ne: "scards s \<noteq> []" .
    show ?thesis using cp Some cm is_four_colour_set_eq[OF ne] by (simp add: spec_four_colour_def)
  qed
  show ?thesis
    unfolding check_oot_def a collect_melds_eq
    using cp four scan[of 4] scan[of 3]
    by (simp add: spec_check_oot_def spec_first_eligible_def spec_scan_order_def split: option.splits)
qed


theorem check_oot_priority_witness:
  "check_oot False
     \<lparr>deck = \<lparr>ndecks = 2, cards = []\<rparr>,
      players = [Player_init ''a'', Player_init ''b'',
                 (Player_init ''p''\<lparr>hand := [new_card 1 ''red'' ''kee'', new_card 2 ''red'' ''kee'',
                                       new_card 3 ''red'' ''kee'', new_card 4 ''yellow'' ''mah''],
                              hand_score := 3\<rparr>)],
      current_player = 0,
      active_card = Some ((new_card 9 ''red'' ''kee'')\<lparr>active := True\<rparr>),
      discards = [], faceup_sets = [], turn_count = 1, verbose = False, enable_oot = True,
      rng = [], next_ident = 10\<rparr>
   = Inr (''oot'',
     \<lparr>deck = \<lparr>ndecks = 2, cards = []\<rparr>,
      players = [Player_init ''a'', Player_init ''b'',
                 (Player_init ''p''\<lparr>hand := [new_card 1 ''red'' ''kee'', new_card 2 ''red'' ''kee'',
                                       new_card 3 ''red'' ''kee'', new_card 4 ''yellow'' ''mah''],
                              hand_score := 3\<rparr>)],
      current_player = 0,
      active_card = Some ((new_card 9 ''red'' ''kee'')\<lparr>active := True\<rparr>),
      discards = [], faceup_sets = [], turn_count = 1, verbose = False, enable_oot = True,
      rng = [], next_ident = 10\<rparr>\<lparr>current_player := 2\<rparr>)"
proof -
  define g where "g = \<lparr>deck = \<lparr>ndecks = 2, cards = []\<rparr>,
      players = [Player_init ''a'', Player_init ''b'',
                 (Player_init ''p''\<lparr>hand := [new_card 1 ''red'' ''kee'', new_card 2 ''red'' ''kee'',
                                       new_card 3 ''red'' ''kee'', new_card 4 ''yellow'' ''mah''],
                              hand_score := 3\<rparr>)],
      current_player = 0,
      active_card = Some ((new_card 9 ''red'' ''kee'')\<lparr>active := True\<rparr>),
      discards = [], faceup_sets = [], turn_count = 1, verbose = False, enable_oot = True,
      rng = [], next_ident = 10\<rparr>"
  have a: "active_card g = Some ((new_card 9 ''red'' ''kee'')\<lparr>active := True\<rparr>)"
    and c: "current_player g < length (players g)"
    unfolding g_def by simp_all
  have e: "spec_check_oot ((new_card 9 ''red'' ''kee'')\<lparr>active := True\<rparr>) g
      = (''oot'', g\<lparr>current_player := 2\<rparr>)"
    unfolding g_def by code_simp
  from check_oot_priority[OF a c, of False]
  have "check_oot False g = Inr (''oot'', g\<lparr>current_player := 2\<rparr>)" by (simp only: e)
  then show ?thesis unfolding g_def .
qed

subsection \<open>The turn of a player: the meld that is rolled back\<close>

lemma sort_cards_suit_eq: "sort_cards cs ''suit'' = Inr (sort_key rank cs, sort_key rank cs)"
  by (simp add: sort_cards_def Let_def)

text \<open>What \<open>evaluate_player_hand\<close> computes from the hand and the sets on the table.\<close>

lemma evaluate_player_hand_eq:
  assumes "evaluate_hand (hand q) = Inr r"
  shows "evaluate_player_hand q =
     Inr (q\<lparr>hand := hand_after r, hand_sets := found_sets r, hand_score := res_hand_score r,
            lang_pai := res_lang_pai r,
            total_score := res_hand_score r + facedown_score q + melded_score q,
            collection := sort_key rank (hand_after r @ concat (map scards (facedown_sets q))
                             @ concat (map scards (melded_sets q)))\<rparr>)"
proof -
  from evaluate_hand_total[of "hand q"] assms have "cards_not_locked (hand_after r)" by auto
  then have "map (\<lambda>c. c\<lparr>locked := False\<rparr>) (hand_after r) = hand_after r"
    by (intro map_idI) (auto simp: cards_not_locked_def list_all_iff)
  then show ?thesis using assms
    by (simp add: evaluate_player_hand_def update_collection_def sort_cards_suit_eq Let_def)
qed

lemma evaluate_player_hand_cong:
  assumes "hand q = hand p" "facedown_sets q = facedown_sets p" "facedown_score q = facedown_score p"
    "melded_sets q = melded_sets p" "melded_score q = melded_score p" "name q = name p"
    "field_discards q = field_discards p" "field_melded_sets q = field_melded_sets p"
  shows "evaluate_player_hand q = evaluate_player_hand p"
proof -
  obtain r where r: "evaluate_hand (hand p) = Inr r" using evaluate_hand_total by blast
  then have rq: "evaluate_hand (hand q) = Inr r" using assms(1) by simp
  show ?thesis
    unfolding evaluate_player_hand_eq[OF r] evaluate_player_hand_eq[OF rq]
    using assms by (intro arg_cong[where f = Inr] player.equality) simp_all
qed

lemma evaluate_player_hand_keeps:
  assumes "evaluate_player_hand q = Inr q'"
  shows "melded_sets q' = melded_sets q" "melded_score q' = melded_score q"
    "facedown_sets q' = facedown_sets q" "facedown_score q' = facedown_score q"
    "name q' = name q" "field_discards q' = field_discards q"
    "field_melded_sets q' = field_melded_sets q"
proof -
  obtain r where r: "evaluate_hand (hand q) = Inr r" using evaluate_hand_total by blast
  from assms[unfolded evaluate_player_hand_eq[OF r]]
  show "melded_sets q' = melded_sets q" "melded_score q' = melded_score q"
    "facedown_sets q' = facedown_sets q" "facedown_score q' = facedown_score q"
    "name q' = name q" "field_discards q' = field_discards q"
    "field_melded_sets q' = field_melded_sets q"
    by auto
qed

lemma meld_sets_eq:
  "meld_sets fs (p, h, m) = Inr (p1, h1, m1) \<Longrightarrow>
   p1 = p\<lparr>melded_sets := melded_sets p @ filter melded fs,
          melded_score := melded_score p + sum_list (map score (filter melded fs))\<rparr> \<and>
   m1 = (if filter melded fs = [] then m else Some (last (filter melded fs)))"
proof (induction fs arbitrary: p h m)
  case Nil
  then show ?case by simp
next
  case (Cons s ss)
  show ?case
  proof (cases "melded s")
    case False
    with Cons.prems have "meld_sets ss (p, h, m) = Inr (p1, h1, m1)" by simp
    from Cons.IH[OF this] False show ?thesis by simp
  next
    case True
    with Cons.prems obtain h' where h': "remove_all (scards s) h = Inr h'"
      and rec: "meld_sets ss (p\<lparr>melded_sets := melded_sets p @ [s],
                 melded_score := melded_score p + score s\<rparr>, h', Some s) = Inr (p1, h1, m1)"
      by (auto split: sum.splits)
    from Cons.IH[OF rec] True show ?thesis by (simp add: add.assoc)
  qed
qed

lemma discard_card_None:
  assumes "discard_card t q = Inr (None, q', t')"
  shows "q' = q \<and> t' = t"
proof -
  have nf: "discard_from t0 q cs \<noteq> Inr (None, q', t')" for t0 cs
    by (auto simp: discard_from_def split: sum.splits prod.splits)
  show ?thesis
    using assms nf
    by (auto simp: discard_card_def split: if_splits option.splits sum.splits prod.splits)
qed


lemma filter_at_most_one:
  assumes "distinct (map ident (concat (map scards fs)))"
    and "\<And>t. t \<in> set fs \<Longrightarrow> Q t \<Longrightarrow> a \<in> set (scards t)"
  shows "length (filter Q fs) \<le> 1"
  using assms
proof (induction fs)
  case Nil
  then show ?case by simp
next
  case (Cons t ts)
  have dts: "distinct (map ident (concat (map scards ts)))" using Cons.prems(1) by simp
  have IH: "length (filter Q ts) \<le> 1" by (rule Cons.IH[OF dts]) (use Cons.prems(2) in auto)
  show ?case
  proof (cases "Q t")
    case False
    with IH show ?thesis by simp
  next
    case True
    then have at: "a \<in> set (scards t)" using Cons.prems(2) by simp
    have "filter Q ts = []"
    proof (rule ccontr)
      assume "filter Q ts \<noteq> []"
      then obtain t' where t': "t' \<in> set ts" "Q t'" by (metis filter_empty_conv)
      then have "a \<in> set (scards t')" using Cons.prems(2) by simp
      with t'(1) have "a \<in> set (concat (map scards ts))" by auto
      with at Cons.prems(1) show False by auto
    qed
    with True show ?thesis by simp
  qed
qed

lemma Set_init_melded:
  assumes "Set_init cs = Inr t"
  shows "melded t = contains_active_card cs"
proof (cases "cs = []")
  case True
  with assms show ?thesis by (simp add: Set_init_def Let_def)
next
  case False
  from Set_init_table[OF False] assms show ?thesis by auto
qed

lemma one_melded_set:
  assumes dist: "distinct (map ident (h @ [a]))" and nl: "cards_not_locked (h @ [a])"
    and inact: "\<forall>c \<in> set h. \<not> active c"
    and ev: "evaluate_hand (h @ [a]) = Inr r"
  shows "length (filter melded (found_sets r)) \<le> 1"
proof -
  from evaluate_hand_partition0[OF dist nl] ev
  have d: "distinct (map ident (found_cards (found_sets r) @ res_lang_pai r))"
    and m: "mset (found_cards (found_sets r) @ res_lang_pai r) = mset (h @ [a])" by auto
  have sub: "set (found_cards (found_sets r)) \<subseteq> set (h @ [a])"
    using m by (metis mset_eq_setD set_append sup_ge1)
  have "a \<in> set (scards t)" if t: "t \<in> set (found_sets r)" "melded t" for t
  proof -
    from evaluate_hand_sets_built(1)[OF ev t(1)] have "melded t = contains_active_card (scards t)"
      by (rule Set_init_melded)
    with t(2) obtain c where c: "c \<in> set (scards t)" "active c"
      by (auto simp: contains_active_card_def list_ex_iff)
    with t(1) have "c \<in> set (found_cards (found_sets r))" by (auto simp: found_cards_def)
    with sub inact c(2) have "c = a" by auto
    with c(1) show ?thesis by simp
  qed
  moreover have "distinct (map ident (concat (map scards (found_sets r))))"
    using d by (simp add: found_cards_def)
  ultimately show ?thesis by (rule filter_at_most_one[rotated])
qed

text \<open>With \<^verbatim>\<open>drawn=True\<close>, \<^verbatim>\<open>play_turn\<close> never asks for another draw.\<close>

lemma play_turn_drawn:
  assumes "play_turn ac True t p = Inr ((ms, x), p', t')"
  shows "x \<noteq> Draw"
  using assms
  by (auto simp: play_turn_def Let_def
      split: option.splits sum.splits prod.splits if_splits)

text \<open>
  C6. For a player whose state is consistent (evaluating his hand again changes nothing),
  whose hand holds distinct cards none of which is active, and an unlocked active card
  that is another object: if \<^verbatim>\<open>play_turn\<close> commits a meld (the melding criterion holds and
  the loop over the found sets melds the set \<open>ms\<close>), the player cannot win, and
  \<^verbatim>\<open>discard_card\<close> then returns \<^verbatim>\<open>None\<close>, then \<^verbatim>\<open>play_turn\<close> leaves the player exactly as he
  was before the call (melded sets, melded score, hand, hand sets, lang pai and all
  scores), and returns no set together with the active card when \<open>drawn\<close> is true, or
  \<^verbatim>\<open>'draw'\<close> when it is false.
\<close>

theorem play_turn_rollback:
  assumes cons: "evaluate_player_hand p = Inr p"
    and dist: "distinct (map ident (hand p @ [a]))"
    and inact: "\<forall>c \<in> set (hand p). \<not> active c" and anl: "\<not> locked a"
    and ev: "evaluate_hand (hand p @ [a]) = Inr r"
    and crit: "res_hand_score r > hand_score p \<or> can_tok p (res_hand_score r) (res_lang_pai r)"
    and meld: "meld_sets (found_sets r) (p, hand_after r, None) = Inr (p1, h, Some ms)"
    and ev2: "evaluate_player_hand (p1\<lparr>hand := h\<rparr>) = Inr p2" and nw: "\<not> can_win p2"
    and dc: "discard_card t p2 = Inr (None, p3, t')"
  shows "play_turn (Some a) drawn t p = Inr ((None, if drawn then Discard a else Draw), p, t)"
proof -
  obtain r0 where r0: "evaluate_hand (hand p) = Inr r0" using evaluate_hand_total by blast
  have "hand p = hand_after r0"
  proof -
    from cons[unfolded evaluate_player_hand_eq[OF r0]]
    have "hand (p\<lparr>hand := hand_after r0, hand_sets := found_sets r0,
            hand_score := res_hand_score r0, lang_pai := res_lang_pai r0,
            total_score := res_hand_score r0 + facedown_score p + melded_score p,
            collection := sort_key rank (hand_after r0 @ concat (map scards (facedown_sets p))
                             @ concat (map scards (melded_sets p)))\<rparr>) = hand p"
      by (simp only: sum.inject)
    then show ?thesis by simp
  qed
  moreover from evaluate_hand_total[of "hand p"] r0 have "cards_not_locked (hand_after r0)" by auto
  ultimately have hnl: "cards_not_locked (hand p @ [a])"
    using anl by (simp add: cards_not_locked_def)
  from one_melded_set[OF dist hnl inact ev] have le1: "length (filter melded (found_sets r)) \<le> 1" .
  from meld_sets_eq[OF meld]
  have p1: "p1 = p\<lparr>melded_sets := melded_sets p @ filter melded (found_sets r),
          melded_score := melded_score p + sum_list (map score (filter melded (found_sets r)))\<rparr>"
    and ms: "Some ms = (if filter melded (found_sets r) = [] then None
                        else Some (last (filter melded (found_sets r))))" by auto
  from ms have ne: "filter melded (found_sets r) \<noteq> []" by (auto split: if_splits)
  with le1 obtain x where x: "filter melded (found_sets r) = [x]"
    by (cases "filter melded (found_sets r)") auto
  with ms have fm: "filter melded (found_sets r) = [ms]" by simp
  have p1': "p1 = p\<lparr>melded_sets := melded_sets p @ [ms], melded_score := melded_score p + score ms\<rparr>"
    using p1 fm by simp
  from discard_card_None[OF dc] have p3: "p3 = p2" "t' = t" by auto
  note k = evaluate_player_hand_keeps[OF ev2]
  have "rollback (Some ms) (hand p) p2 = evaluate_player_hand p"
    unfolding rollback_def option.case
    by (rule evaluate_player_hand_cong) (simp_all add: k p1')
  then have rb: "rollback (Some ms) (hand p) p2 = Inr p" using cons by simp
  show ?thesis
    unfolding play_turn_def option.case Let_def
    using ev crit meld ev2 nw dc p3 rb by simp
qed


theorem play_turn_rollback_witness:
  "evaluate_player_hand
       ((Player_init ''a'')
        \<lparr>hand := [new_card 1 ''red'' ''kuin''],
         hand_sets := [\<lparr>scards = [new_card 1 ''red'' ''kuin''], melded = False, invalid = False,
                       same_colour = True, same_suit = True, unique_colours = True, score = 1\<rparr>],
         hand_score := 1, total_score := 1, collection := [new_card 1 ''red'' ''kuin'']\<rparr>) =
     Inr ((Player_init ''a'')
        \<lparr>hand := [new_card 1 ''red'' ''kuin''],
         hand_sets := [\<lparr>scards = [new_card 1 ''red'' ''kuin''], melded = False, invalid = False,
                       same_colour = True, same_suit = True, unique_colours = True, score = 1\<rparr>],
         hand_score := 1, total_score := 1, collection := [new_card 1 ''red'' ''kuin'']\<rparr>) \<and>
   play_turn (Some ((new_card 2 ''yellow'' ''kuin'')\<lparr>active := True\<rparr>)) False []
       ((Player_init ''a'')
        \<lparr>hand := [new_card 1 ''red'' ''kuin''],
         hand_sets := [\<lparr>scards = [new_card 1 ''red'' ''kuin''], melded = False, invalid = False,
                       same_colour = True, same_suit = True, unique_colours = True, score = 1\<rparr>],
         hand_score := 1, total_score := 1, collection := [new_card 1 ''red'' ''kuin'']\<rparr>) =
     Inr ((None, Draw),
       (Player_init ''a'')
        \<lparr>hand := [new_card 1 ''red'' ''kuin''],
         hand_sets := [\<lparr>scards = [new_card 1 ''red'' ''kuin''], melded = False, invalid = False,
                       same_colour = True, same_suit = True, unique_colours = True, score = 1\<rparr>],
         hand_score := 1, total_score := 1, collection := [new_card 1 ''red'' ''kuin'']\<rparr>, [])"
proof -
  define p where "p = (Player_init ''a'')
        \<lparr>hand := [new_card 1 ''red'' ''kuin''],
         hand_sets := [\<lparr>scards = [new_card 1 ''red'' ''kuin''], melded = False, invalid = False,
                       same_colour = True, same_suit = True, unique_colours = True, score = 1\<rparr>],
         hand_score := 1, total_score := 1, collection := [new_card 1 ''red'' ''kuin'']\<rparr>"
  define a where "a = (new_card 2 ''yellow'' ''kuin'')\<lparr>active := True\<rparr>"
  define r where "r = projr (evaluate_hand (hand p @ [a]))"
  define x where "x = projr (meld_sets (found_sets r) (p, hand_after r, None))"
  define p2 where "p2 = projr (evaluate_player_hand ((fst x)\<lparr>hand := fst (snd x)\<rparr>))"
  have cons: "evaluate_player_hand p = Inr p" unfolding p_def by code_simp
  have dist: "distinct (map ident (hand p @ [a]))" unfolding p_def a_def by code_simp
  have inact: "\<forall>c \<in> set (hand p). \<not> active c" unfolding p_def by code_simp
  have anl: "\<not> locked a" unfolding a_def by code_simp
  have ev: "evaluate_hand (hand p @ [a]) = Inr r" unfolding r_def p_def a_def by code_simp
  have crit: "res_hand_score r > hand_score p \<or> can_tok p (res_hand_score r) (res_lang_pai r)"
    unfolding r_def p_def a_def by code_simp
  have meld: "meld_sets (found_sets r) (p, hand_after r, None)
       = Inr (fst x, fst (snd x), Some (the (snd (snd x))))"
    unfolding x_def r_def p_def a_def by code_simp
  have ev2: "evaluate_player_hand ((fst x)\<lparr>hand := fst (snd x)\<rparr>) = Inr p2"
    unfolding p2_def x_def r_def p_def a_def by code_simp
  have nw: "\<not> can_win p2" unfolding p2_def x_def r_def p_def a_def by code_simp
  have dc: "discard_card [] p2 = Inr (None, p2, [])"
    unfolding p2_def x_def r_def p_def a_def by code_simp
  from play_turn_rollback[OF cons dist inact anl ev crit meld ev2 nw dc, of False] cons
  show ?thesis unfolding p_def a_def by simp
qed

end
